theory Spec2Isabelle
  imports Main "HOL-Library.List_Lexorder" "HOL-Library.Word"
begin

section \<open>Text and bytes\<close>

text \<open>
  The program is \<^verbatim>\<open>scripts/extract_urls_from_dir.py\<close>. A Python \<^verbatim>\<open>str\<close> is a
  sequence of Unicode code points, so it is modelled as a list of naturals; the order
  of \<^verbatim>\<open>sorted\<close> on strings is the lexicographic order of code points, which is the
  order of lists of naturals. File contents on disk are bytes.
\<close>

type_synonym pystr = "nat list"
type_synonym byte = "8 word"

abbreviation str :: "string \<Rightarrow> pystr" where
  "str s \<equiv> map of_char s"

section \<open>The patterns\<close>

subsection \<open>Character tests of the \<^verbatim>\<open>re\<close> module\<close>

text \<open>
  \<^verbatim>\<open>\s\<close> in a \<^verbatim>\<open>str\<close> pattern is Unicode white space (\<^verbatim>\<open>str.isspace\<close>).
\<close>

definition is_space :: "nat \<Rightarrow> bool" where
  "is_space c \<longleftrightarrow>
     (9 \<le> c \<and> c \<le> 13) \<or> (28 \<le> c \<and> c \<le> 32) \<or> c = 0x85 \<or> c = 0xA0 \<or> c = 0x1680 \<or>
     (0x2000 \<le> c \<and> c \<le> 0x200A) \<or> c = 0x2028 \<or> c = 0x2029 \<or> c = 0x202F \<or>
     c = 0x205F \<or> c = 0x3000"

text \<open>
  Under \<^verbatim>\<open>re.IGNORECASE\<close> a cased literal of the pattern, given in lower case, matches
  a character whose simple lower-case mapping is that literal, or which is listed as
  an equivalent of it. For the ASCII letters these are the letter, its capital, and:
  U+212A (Kelvin sign) for \<^verbatim>\<open>k\<close>; U+0130 and U+0131 for \<^verbatim>\<open>i\<close>; U+017F (long s)
  for \<^verbatim>\<open>s\<close>.
\<close>

definition ic_eq :: "nat \<Rightarrow> nat \<Rightarrow> bool" where
  "ic_eq l c \<longleftrightarrow>
     c = l \<or> (65 \<le> c \<and> c \<le> 90 \<and> c + 32 = l) \<or>
     (l = 0x6B \<and> c = 0x212A) \<or> (l = 0x69 \<and> (c = 0x130 \<or> c = 0x131)) \<or>
     (l = 0x73 \<and> c = 0x17F)"

text \<open>\<^verbatim>\<open>[A-Za-z]\<close> under \<^verbatim>\<open>re.IGNORECASE\<close>: the 52 ASCII letters and the four
  non-ASCII letters above.\<close>

definition is_letter :: "nat \<Rightarrow> bool" where
  "is_letter c \<longleftrightarrow>
     (65 \<le> c \<and> c \<le> 90) \<or> (97 \<le> c \<and> c \<le> 122) \<or>
     c = 0x130 \<or> c = 0x131 \<or> c = 0x17F \<or> c = 0x212A"

definition is_digit :: "nat \<Rightarrow> bool" where
  "is_digit c \<longleftrightarrow> 48 \<le> c \<and> c \<le> 57"

text \<open>\<^verbatim>\<open>[^\s"'<>]\<close>\<close>

definition url_char :: "nat \<Rightarrow> bool" where
  "url_char c \<longleftrightarrow> \<not> (is_space c \<or> c = 0x22 \<or> c = 0x27 \<or> c = 0x3C \<or> c = 0x3E)"

text \<open>\<^verbatim>\<open>[A-Za-z0-9.-]\<close> under \<^verbatim>\<open>re.IGNORECASE\<close>\<close>

definition domain_char :: "nat \<Rightarrow> bool" where
  "domain_char c \<longleftrightarrow> is_letter c \<or> is_digit c \<or> c = 0x2E \<or> c = 0x2D"

subsection \<open>Regular expressions and backtracking\<close>

text \<open>
  The fragment of the pattern language the two patterns are written in: literals,
  character classes, concatenation, ordered alternation, the greedy option
  \<^verbatim>\<open>(?:r)?\<close> and the greedy repetition of a character class (\<^verbatim>\<open>+\<close>, \<^verbatim>\<open>*\<close>,
  \<^verbatim>\<open>{m,n}\<close>). All groups of the source are non-capturing.
\<close>

datatype regex =
    Eps
  | Lit nat
  | LitIC nat
  | Cls "nat \<Rightarrow> bool"
  | Seq regex regex
  | Alt regex regex
  | Opt regex
  | Rep nat "nat option" "nat \<Rightarrow> bool"

text \<open>
  \<open>rx_match r s\<close> lists, in the order in which the backtracking matcher tries them,
  the remainders of \<open>s\<close> after each way of matching \<open>r\<close> at the start of \<open>s\<close>. The
  match the engine reports is the first one.
\<close>

fun rx_match :: "regex \<Rightarrow> pystr \<Rightarrow> pystr list" where
  "rx_match Eps s = [s]"
| "rx_match (Lit a) s = (case s of [] \<Rightarrow> [] | c # t \<Rightarrow> if c = a then [t] else [])"
| "rx_match (LitIC a) s = (case s of [] \<Rightarrow> [] | c # t \<Rightarrow> if ic_eq a c then [t] else [])"
| "rx_match (Cls p) s = (case s of [] \<Rightarrow> [] | c # t \<Rightarrow> if p c then [t] else [])"
| "rx_match (Seq a b) s = concat (map (rx_match b) (rx_match a s))"
| "rx_match (Alt a b) s = rx_match a s @ rx_match b s"
| "rx_match (Opt a) s = rx_match a s @ [s]"
| "rx_match (Rep m mx p) s =
     (let k = length (takeWhile p s);
          hi = (case mx of None \<Rightarrow> k | Some n \<Rightarrow> min k n)
      in map (\<lambda>n. drop n s) (rev [m..<Suc hi]))"

text \<open>The length of the match at the start of \<open>s\<close>, if there is one.\<close>

definition match_len :: "regex \<Rightarrow> pystr \<Rightarrow> nat option" where
  "match_len r s = (case rx_match r s of [] \<Rightarrow> None | t # _ \<Rightarrow> Some (length s - length t))"

text \<open>
  \<^verbatim>\<open>regex.findall(content)\<close>: the non-overlapping matches from left to right. With no
  capturing group each result is the matched text. An empty match is recorded and the
  scan moves on by one character; the two patterns of this program never match the
  empty string.
\<close>

function findall :: "regex \<Rightarrow> pystr \<Rightarrow> pystr list" where
  "findall r s =
     (case match_len r s of
        None \<Rightarrow> (if s = [] then [] else findall r (tl s))
      | Some n \<Rightarrow>
          if n = 0 then (if s = [] then [[]] else [] # findall r (tl s))
          else take n s # findall r (drop n s))"
  by pat_completeness auto
termination
  by (relation "measure (\<lambda>(r, s). length s)") (auto simp: match_len_def split: list.splits)

declare findall.simps [simp del]

subsection \<open>The two patterns of the program\<close>

fun seqs :: "regex list \<Rightarrow> regex" where
  "seqs [] = Eps"
| "seqs (r # rs) = Seq r (seqs rs)"

text \<open>\<^verbatim>\<open>STRICT_SCHEME = r'(?:https?://|www\.)'\<close>\<close>

definition STRICT_SCHEME :: regex where
  "STRICT_SCHEME =
     Alt (seqs [LitIC 0x68, LitIC 0x74, LitIC 0x74, LitIC 0x70, Opt (LitIC 0x73),
                Lit 0x3A, Lit 0x2F, Lit 0x2F])
         (seqs [LitIC 0x77, LitIC 0x77, LitIC 0x77, Lit 0x2E])"

text \<open>\<^verbatim>\<open>STRICT_BODY = r'[^\s"\'<>]+'\<close>\<close>

definition STRICT_BODY :: regex where
  "STRICT_BODY = Rep 1 None url_char"

text \<open>\<^verbatim>\<open>URL_REGEX = re.compile(STRICT_SCHEME + STRICT_BODY, re.IGNORECASE)\<close>\<close>

definition URL_REGEX :: regex where
  "URL_REGEX = Seq STRICT_SCHEME STRICT_BODY"

text \<open>\<^verbatim>\<open>LENIENT_SCHEME = r'(?:https?://|www\.|ftp://)?'\<close>\<close>

definition LENIENT_SCHEME :: regex where
  "LENIENT_SCHEME =
     Opt (Alt (seqs [LitIC 0x68, LitIC 0x74, LitIC 0x74, LitIC 0x70, Opt (LitIC 0x73),
                     Lit 0x3A, Lit 0x2F, Lit 0x2F])
          (Alt (seqs [LitIC 0x77, LitIC 0x77, LitIC 0x77, Lit 0x2E])
               (seqs [LitIC 0x66, LitIC 0x74, LitIC 0x70, Lit 0x3A, Lit 0x2F, Lit 0x2F])))"

text \<open>\<^verbatim>\<open>LENIENT_DOMAIN = r'[A-Za-z0-9.-]+\.[A-Za-z]{2,6}'\<close>\<close>

definition LENIENT_DOMAIN :: regex where
  "LENIENT_DOMAIN = seqs [Rep 1 None domain_char, Lit 0x2E, Rep 2 (Some 6) is_letter]"

text \<open>\<^verbatim>\<open>LENIENT_PATH = r'(?:/[^\s"\'<>]*)?'\<close>\<close>

definition LENIENT_PATH :: regex where
  "LENIENT_PATH = Opt (Seq (Lit 0x2F) (Rep 0 None url_char))"

text \<open>\<^verbatim>\<open>LENIENT_URL_REGEX = re.compile(LENIENT_SCHEME + LENIENT_DOMAIN + LENIENT_PATH,
  re.IGNORECASE)\<close>\<close>

definition LENIENT_URL_REGEX :: regex where
  "LENIENT_URL_REGEX = Seq LENIENT_SCHEME (Seq LENIENT_DOMAIN LENIENT_PATH)"

definition matchStrict :: "pystr \<Rightarrow> pystr list" where
  "matchStrict text = findall URL_REGEX text"

definition matchLenient :: "pystr \<Rightarrow> pystr list" where
  "matchLenient text = findall LENIENT_URL_REGEX text"

section \<open>Reading a file\<close>

text \<open>
  \<^verbatim>\<open>open(file_path, "r", encoding="utf-8", errors="ignore")\<close> followed by
  \<^verbatim>\<open>f.read()\<close>: either an \<^verbatim>\<open>OSError\<close> is raised, or the bytes of the file are
  decoded as UTF-8 under the given error handler and line ends are translated
  (text mode with the default \<^verbatim>\<open>newline=None\<close>).
\<close>

datatype exn = OSError pystr | UnicodeDecodeError | UnicodeEncodeError

datatype errors = Strict | Ignore | Replace

datatype utf8_step = Scalar nat nat | Malformed nat

definition is_cont :: "byte \<Rightarrow> bool" where
  "is_cont b \<longleftrightarrow> 0x80 \<le> b \<and> b \<le> 0xBF"

text \<open>
  One step of the UTF-8 decoder at a non-empty input \<open>b0 # bs\<close>: a code point with
  the number of bytes it took, or the number of bytes of the malformed sequence
  (an invalid start byte: one byte; an invalid continuation byte: the bytes before
  it; an unexpected end of data: all that is left).
\<close>

definition utf8_next :: "byte \<Rightarrow> byte list \<Rightarrow> utf8_step" where
  "utf8_next b0 bs =
    (if b0 < 0x80 then Scalar (unat b0) 1
     else if b0 < 0xC2 then Malformed 1
     else if b0 < 0xE0 then
       (case bs of
          [] \<Rightarrow> Malformed 1
        | b1 # _ \<Rightarrow>
            if is_cont b1 then Scalar ((unat b0 - 0xC0) * 64 + (unat b1 - 0x80)) 2
            else Malformed 1)
     else if b0 < 0xF0 then
       (case bs of
          [] \<Rightarrow> Malformed 1
        | b1 # bs1 \<Rightarrow>
            if \<not> is_cont b1 \<or> (if b1 < 0xA0 then b0 = 0xE0 else b0 = 0xED) then Malformed 1
            else
              (case bs1 of
                 [] \<Rightarrow> Malformed 2
               | b2 # _ \<Rightarrow>
                   if is_cont b2 then
                     Scalar ((unat b0 - 0xE0) * 4096 + (unat b1 - 0x80) * 64 + (unat b2 - 0x80)) 3
                   else Malformed 2))
     else if b0 < 0xF5 then
       (case bs of
          [] \<Rightarrow> Malformed 1
        | b1 # bs1 \<Rightarrow>
            if \<not> is_cont b1 \<or> (if b1 < 0x90 then b0 = 0xF0 else b0 = 0xF4) then Malformed 1
            else
              (case bs1 of
                 [] \<Rightarrow> Malformed 2
               | b2 # bs2 \<Rightarrow>
                   if \<not> is_cont b2 then Malformed 2
                   else
                     (case bs2 of
                        [] \<Rightarrow> Malformed 3
                      | b3 # _ \<Rightarrow>
                          if is_cont b3 then
                            Scalar ((unat b0 - 0xF0) * 262144 + (unat b1 - 0x80) * 4096 +
                                    (unat b2 - 0x80) * 64 + (unat b3 - 0x80)) 4
                          else Malformed 3)))
     else Malformed 1)"

text \<open>
  The decoder under an error handler: \<^verbatim>\<open>strict\<close> raises at the first malformed
  sequence, \<^verbatim>\<open>ignore\<close> continues after it, \<^verbatim>\<open>replace\<close> puts U+FFFD in its place.
\<close>

fun utf8_decode :: "errors \<Rightarrow> byte list \<Rightarrow> exn + pystr" where
  "utf8_decode h [] = Inr []"
| "utf8_decode h (b0 # bs) =
     (case utf8_next b0 bs of
        Scalar c n \<Rightarrow>
          (case utf8_decode h (drop (n - 1) bs) of
             Inl e \<Rightarrow> Inl e
           | Inr t \<Rightarrow> Inr (c # t))
      | Malformed n \<Rightarrow>
          (case h of
             Strict \<Rightarrow> Inl UnicodeDecodeError
           | Ignore \<Rightarrow> utf8_decode h (drop (n - 1) bs)
           | Replace \<Rightarrow>
               (case utf8_decode h (drop (n - 1) bs) of
                  Inl e \<Rightarrow> Inl e
                | Inr t \<Rightarrow> Inr (0xFFFD # t))))"

text \<open>Universal newlines: \<^verbatim>\<open>\r\n\<close> and \<^verbatim>\<open>\r\<close> are read as \<^verbatim>\<open>\n\<close>.\<close>

fun universal_newlines :: "pystr \<Rightarrow> pystr" where
  "universal_newlines [] = []"
| "universal_newlines [c] = (if c = 13 then [10] else [c])"
| "universal_newlines (c # d # t) =
     (if c = 13 \<and> d = 10 then 10 # universal_newlines t
      else if c = 13 then 10 # universal_newlines (d # t)
      else c # universal_newlines (d # t))"

text \<open>
  What the file system gives for a file: the message of the \<^verbatim>\<open>OSError\<close> that
  opening or reading it raises, or its bytes.
\<close>

type_synonym disk_file = "pystr + byte list"

definition read_file :: "errors \<Rightarrow> disk_file \<Rightarrow> exn + pystr" where
  "read_file h f =
     (case f of
        Inl msg \<Rightarrow> Inl (OSError msg)
      | Inr bs \<Rightarrow>
          (case utf8_decode h bs of
             Inl e \<Rightarrow> Inl e
           | Inr t \<Rightarrow> Inr (universal_newlines t)))"

section \<open>File names\<close>

text \<open>
  \<^verbatim>\<open>str.lower\<close>, character by character. ASCII capitals go to their small letters;
  U+0130 goes to \<^verbatim>\<open>i\<close> followed by U+0307 and U+212A to \<^verbatim>\<open>k\<close>. Every other
  non-ASCII character has a lower-case form of one non-ASCII character; the model
  leaves it unchanged, which a comparison with an ASCII suffix cannot tell apart.
\<close>

definition lower_cp :: "nat \<Rightarrow> pystr" where
  "lower_cp c =
     (if 65 \<le> c \<and> c \<le> 90 then [c + 32]
      else if c = 0x130 then [0x69, 0x307]
      else if c = 0x212A then [0x6B]
      else [c])"

definition lower :: "pystr \<Rightarrow> pystr" where
  "lower s = concat (map lower_cp s)"

definition endswith :: "pystr \<Rightarrow> pystr \<Rightarrow> bool" where
  "endswith s suf \<longleftrightarrow> length suf \<le> length s \<and> drop (length s - length suf) s = suf"

text \<open>\<^verbatim>\<open>os.path.join(a, b)\<close> of \<^verbatim>\<open>posixpath\<close>, for two arguments.\<close>

definition os_path_join :: "pystr \<Rightarrow> pystr \<Rightarrow> pystr" where
  "os_path_join a b =
     (if b \<noteq> [] \<and> hd b = 0x2F then b
      else if a = [] \<or> last a = 0x2F then a @ b
      else a @ 0x2F # b)"

section \<open>The occurrence index\<close>

text \<open>
  \<^verbatim>\<open>occurrences\<close> is a \<^verbatim>\<open>dict\<close> from URL to a \<^verbatim>\<open>set\<close> of file paths. A \<^verbatim>\<open>dict\<close>
  iterates in the order in which its keys were first inserted, and the program
  iterates it, so it is an association list in insertion order.
\<close>

type_synonym index = "(pystr \<times> pystr set) list"

text \<open>\<^verbatim>\<open>occurrences.setdefault(u, set()).add(file_path)\<close>\<close>

fun setdefault_add :: "index \<Rightarrow> pystr \<Rightarrow> pystr \<Rightarrow> index" where
  "setdefault_add [] u f = [(u, {f})]"
| "setdefault_add ((k, fs) # occ) u f =
     (if k = u then (k, insert f fs) # occ else (k, fs) # setdefault_add occ u f)"

text \<open>\<^verbatim>\<open>for u in found_urls: occurrences.setdefault(u, set()).add(file_path)\<close>\<close>

fun add_urls :: "index \<Rightarrow> pystr list \<Rightarrow> pystr \<Rightarrow> index" where
  "add_urls occ [] f = occ"
| "add_urls occ (u # us) f = add_urls (setdefault_add occ u f) us f"

datatype message =
    CouldNotRead pystr pystr
  | ExtractedOccurrences nat pystr
  | ExtractedUnique nat pystr

text \<open>
  The body of the loop over \<^verbatim>\<open>os.listdir(input_dir)\<close> for one directory entry, on
  the state of the loop: the index and what has been printed. An \<^verbatim>\<open>OSError\<close> is
  caught and printed; any other exception leaves the function.
\<close>

definition scan_entry ::
  "regex \<Rightarrow> pystr \<Rightarrow> pystr \<times> disk_file \<Rightarrow> index \<times> message list \<Rightarrow> exn + index \<times> message list"
where
  "scan_entry regex input_dir entry st =
     (case entry of (filename, f) \<Rightarrow>
      case st of (occurrences, out) \<Rightarrow>
        if endswith (lower filename) (str ''.txt'') then
          (let file_path = os_path_join input_dir filename in
           case read_file Ignore f of
             Inr content \<Rightarrow> Inr (add_urls occurrences (findall regex content) file_path, out)
           | Inl (OSError e) \<Rightarrow> Inr (occurrences, out @ [CouldNotRead file_path e])
           | Inl e \<Rightarrow> Inl e)
        else Inr st)"

fun scan_files ::
  "regex \<Rightarrow> pystr \<Rightarrow> (pystr \<times> disk_file) list \<Rightarrow> index \<times> message list \<Rightarrow> exn + index \<times> message list"
where
  "scan_files regex input_dir [] st = Inr st"
| "scan_files regex input_dir (entry # entries) st =
     (case scan_entry regex input_dir entry st of
        Inl e \<Rightarrow> Inl e
      | Inr st' \<Rightarrow> scan_files regex input_dir entries st')"

section \<open>Writing the output\<close>

record occurrence =
  url :: pystr
  "file" :: pystr

text \<open>
  \<^verbatim>\<open>for url, files in occurrences.items(): for f in sorted(files):
  data.append({"url": url, "file": f})\<close>
\<close>

definition occurrence_table :: "index \<Rightarrow> occurrence list" where
  "occurrence_table occurrences =
     concat (map (\<lambda>(u, files). map (\<lambda>f. \<lparr>url = u, file = f\<rparr>) (sorted_list_of_set files))
                 occurrences)"

text \<open>\<^verbatim>\<open>json.dump(data, out, ensure_ascii=False, indent=2)\<close>\<close>

definition hex_digit :: "nat \<Rightarrow> nat" where
  "hex_digit d = (if d < 10 then 48 + d else 87 + d)"

definition json_escape :: "nat \<Rightarrow> pystr" where
  "json_escape c =
     (if c = 0x22 then [0x5C, 0x22]
      else if c = 0x5C then [0x5C, 0x5C]
      else if c = 10 then 0x5C # str ''n''
      else if c = 13 then 0x5C # str ''r''
      else if c = 9 then 0x5C # str ''t''
      else if c = 8 then 0x5C # str ''b''
      else if c = 12 then 0x5C # str ''f''
      else if c < 0x20 then 0x5C # str ''u00'' @ [hex_digit (c div 16), hex_digit (c mod 16)]
      else [c])"

definition json_string :: "pystr \<Rightarrow> pystr" where
  "json_string s = 0x22 # concat (map json_escape s) @ [0x22]"

definition json_object :: "occurrence \<Rightarrow> pystr" where
  "json_object r =
     str ''  {'' @ [10] @
     str ''    '' @ 0x22 # str ''url'' @ 0x22 # str '': '' @ json_string (url r) @ str '','' @ [10] @
     str ''    '' @ 0x22 # str ''file'' @ 0x22 # str '': '' @ json_string (file r) @ [10] @
     str ''  }''"

fun join_objects :: "pystr list \<Rightarrow> pystr" where
  "join_objects [] = []"
| "join_objects [x] = x"
| "join_objects (x # y # ys) = x @ str '','' @ [10] @ join_objects (y # ys)"

definition json_dump :: "occurrence list \<Rightarrow> pystr" where
  "json_dump data =
     (if data = [] then str ''[]''
      else str ''['' @ [10] @ join_objects (map json_object data) @ [10] @ str '']'')"

text \<open>\<^verbatim>\<open>for url in sorted(occurrences.keys()): out.write(url + "\n")\<close>\<close>

definition unique_list :: "index \<Rightarrow> pystr list" where
  "unique_list occurrences = sort (map fst occurrences)"

definition write_lines :: "pystr list \<Rightarrow> pystr" where
  "write_lines urls = concat (map (\<lambda>u. u @ [10]) urls)"

text \<open>
  The output file is opened with \<^verbatim>\<open>encoding="utf-8"\<close> and the default error handler.
  A \<^verbatim>\<open>str\<close> can hold lone surrogates, the code points U+D800 to U+DFFF: the name of a
  file whose bytes are not UTF-8 comes from \<^verbatim>\<open>os.listdir\<close> with one for each such
  byte. They have no UTF-8 encoding, so that writing a text that holds one raises
  \<^verbatim>\<open>UnicodeEncodeError\<close>. The file then holds some part of what was written before; the
  model gives the exception alone.
\<close>

definition utf8_encodable :: "pystr \<Rightarrow> bool" where
  "utf8_encodable s \<longleftrightarrow> list_all (\<lambda>c. \<not> (0xD800 \<le> c \<and> c \<le> 0xDFFF)) s"

definition file_write :: "pystr \<Rightarrow> exn + pystr" where
  "file_write t = (if utf8_encodable t then Inr t else Inl UnicodeEncodeError)"

section \<open>The program\<close>

record outcome =
  written :: pystr
  printed :: "message list"

text \<open>
  The output step after the loop: the text written to \<^verbatim>\<open>output_file\<close> and the line
  printed after it, or the exception that writing raises. With
  \<^verbatim>\<open>ensure_ascii=False\<close> \<^verbatim>\<open>json.dump\<close> passes the characters of the strings on as
  they are, so both shapes can meet a character that cannot be encoded.
\<close>

definition write_output :: "pystr \<Rightarrow> index \<times> message list \<Rightarrow> exn + outcome" where
  "write_output output_file st =
     (case st of (occurrences, out) \<Rightarrow>
        if endswith (lower output_file) (str ''.json'') then
          (let data = occurrence_table occurrences in
           case file_write (json_dump data) of
             Inl e \<Rightarrow> Inl e
           | Inr t \<Rightarrow>
               Inr \<lparr>written = t,
                    printed = out @ [ExtractedOccurrences (length data) output_file]\<rparr>)
        else
          (case file_write (write_lines (unique_list occurrences)) of
             Inl e \<Rightarrow> Inl e
           | Inr t \<Rightarrow>
               Inr \<lparr>written = t,
                    printed = out @ [ExtractedUnique (length occurrences) output_file]\<rparr>))"

text \<open>
  \<^verbatim>\<open>extract_urls_from_directory(input_dir, output_file, use_lenient)\<close>, on the
  directory as \<^verbatim>\<open>os.listdir\<close> enumerates it: each name with what the file system gives
  for it. The result is the text passed to the output file and what is printed, or the
  exception that leaves the function. A failure of \<^verbatim>\<open>os.listdir\<close> or of opening the
  output file leaves the function with an exception before anything of this is computed
  or after all of it is; neither is part of the model. \<^verbatim>\<open>print\<close> is taken to succeed.
\<close>

definition extract_urls_from_directory ::
  "(pystr \<times> disk_file) list \<Rightarrow> pystr \<Rightarrow> pystr \<Rightarrow> bool \<Rightarrow> exn + outcome"
where
  "extract_urls_from_directory listing input_dir output_file use_lenient =
     (let regex = (if use_lenient then LENIENT_URL_REGEX else URL_REGEX) in
      case scan_files regex input_dir listing ([], []) of
        Inl e \<Rightarrow> Inl e
      | Inr st \<Rightarrow> write_output output_file st)"

section \<open>Notions used in the statements\<close>

text \<open>
  An occurrence index as the data model has it: the keys of the \<^verbatim>\<open>dict\<close> are
  distinct, and every key has a finite, non-empty set of files.
\<close>

definition wf_index :: "index \<Rightarrow> bool" where
  "wf_index occ \<longleftrightarrow> distinct (map fst occ) \<and> list_all (\<lambda>(u, fs). finite fs \<and> fs \<noteq> {}) occ"

text \<open>\<^verbatim>\<open>occurrences.get(u, set())\<close>\<close>

definition files_of :: "index \<Rightarrow> pystr \<Rightarrow> pystr set" where
  "files_of occ u = (case map_of occ u of None \<Rightarrow> {} | Some fs \<Rightarrow> fs)"

text \<open>
  The pattern matched \<open>u\<close> in the content of a directory entry: the entry has the
  suffix, it could be read, and \<open>u\<close> is among the matches.
\<close>

definition matched_in :: "regex \<Rightarrow> pystr \<Rightarrow> pystr \<times> disk_file \<Rightarrow> bool" where
  "matched_in regex u entry \<longleftrightarrow>
     (case entry of (filename, f) \<Rightarrow>
        endswith (lower filename) (str ''.txt'') \<and>
        (case read_file Ignore f of
           Inr content \<Rightarrow> u \<in> set (findall regex content)
         | Inl e \<Rightarrow> False))"

text \<open>The (url, file path) pairs a directory entry contributes, in the order of the matches.\<close>

definition entry_matches :: "regex \<Rightarrow> pystr \<Rightarrow> pystr \<times> disk_file \<Rightarrow> (pystr \<times> pystr) list" where
  "entry_matches regex input_dir entry =
     (case entry of (filename, f) \<Rightarrow>
        if endswith (lower filename) (str ''.txt'') then
          (case read_file Ignore f of
             Inr content \<Rightarrow> map (\<lambda>u. (u, os_path_join input_dir filename)) (findall regex content)
           | Inl e \<Rightarrow> [])
        else [])"

definition matches_in :: "regex \<Rightarrow> pystr \<Rightarrow> (pystr \<times> disk_file) list \<Rightarrow> (pystr \<times> pystr) list" where
  "matches_in regex input_dir listing = concat (map (entry_matches regex input_dir) listing)"

text \<open>What is printed for a directory entry: one line if it has the suffix and cannot be read.\<close>

definition entry_report :: "pystr \<Rightarrow> pystr \<times> disk_file \<Rightarrow> message list" where
  "entry_report input_dir entry =
     (case entry of (filename, f) \<Rightarrow>
        if endswith (lower filename) (str ''.txt'') then
          (case f of Inl e \<Rightarrow> [CouldNotRead (os_path_join input_dir filename) e] | Inr bs \<Rightarrow> [])
        else [])"

definition readable :: "pystr \<times> disk_file \<Rightarrow> bool" where
  "readable entry \<longleftrightarrow> (case snd entry of Inl e \<Rightarrow> False | Inr bs \<Rightarrow> True)"

text \<open>
  The lines of a text in which every line ends with a newline; \<open>None\<close> if the text ends
  in the middle of a line.
\<close>

fun lines_from :: "pystr \<Rightarrow> pystr \<Rightarrow> pystr list option" where
  "lines_from cur [] = (if cur = [] then Some [] else None)"
| "lines_from cur (c # t) =
     (if c = 10 then map_option ((#) cur) (lines_from [] t) else lines_from (cur @ [c]) t)"

definition terminated_lines :: "pystr \<Rightarrow> pystr list option" where
  "terminated_lines t = lines_from [] t"

text \<open>One step of the loop over the matches of a file, on a pair of URL and file path.\<close>

abbreviation add_pair :: "index \<Rightarrow> pystr \<times> pystr \<Rightarrow> index" where
  "add_pair \<equiv> (\<lambda>acc (u, f). setdefault_add acc u f)"

text \<open>
  A name ends in a suffix when the case of ASCII letters is ignored: the last characters
  of the name are those of the suffix, or their capitals.
\<close>

definition ascii_ci_eq :: "nat \<Rightarrow> nat \<Rightarrow> bool" where
  "ascii_ci_eq c l \<longleftrightarrow> c = l \<or> (65 \<le> c \<and> c \<le> 90 \<and> c + 32 = l)"

definition ends_ignoring_case :: "pystr \<Rightarrow> pystr \<Rightarrow> bool" where
  "ends_ignoring_case name suf \<longleftrightarrow>
     length suf \<le> length name \<and>
     list_all2 ascii_ci_eq (drop (length name - length suf) name) suf"

text \<open>
  A character of a suffix for which the test on the lower-cased name is the test
  ignoring the case of ASCII letters: it is not a capital and not one of the
  characters that \<open>lower_cp\<close> produces from a non-ASCII character.
\<close>

definition plain_char :: "nat \<Rightarrow> bool" where
  "plain_char l \<longleftrightarrow> \<not> (65 \<le> l \<and> l \<le> 90) \<and> l \<noteq> 0x307 \<and> l \<noteq> 0x6B \<and> l \<noteq> 0x130 \<and> l \<noteq> 0x212A"

text \<open>
  The sequences into which the decoder cuts a byte string: well-formed ones, each with
  its code point, and malformed ones.
\<close>

fun utf8_items :: "byte list \<Rightarrow> utf8_step list" where
  "utf8_items [] = []"
| "utf8_items (b0 # bs) =
     (case utf8_next b0 bs of
        Scalar c n \<Rightarrow> Scalar c n # utf8_items (drop (n - 1) bs)
      | Malformed n \<Rightarrow> Malformed n # utf8_items (drop (n - 1) bs))"

text \<open>The code points of the well-formed sequences alone.\<close>

fun scalars :: "utf8_step list \<Rightarrow> pystr" where
  "scalars [] = []"
| "scalars (Scalar c n # items) = c # scalars items"
| "scalars (Malformed n # items) = scalars items"

text \<open>The code points with U+FFFD standing for each malformed sequence.\<close>

fun replaced :: "utf8_step list \<Rightarrow> pystr" where
  "replaced [] = []"
| "replaced (Scalar c n # items) = c # replaced items"
| "replaced (Malformed n # items) = 0xFFFD # replaced items"

text \<open>The strings a pattern can match, whatever the order in which they are tried.\<close>

fun lang :: "regex \<Rightarrow> pystr set" where
  "lang Eps = {[]}"
| "lang (Lit a) = {[a]}"
| "lang (LitIC a) = {[c] | c. ic_eq a c}"
| "lang (Cls p) = {[c] | c. p c}"
| "lang (Seq a b) = {x @ y | x y. x \<in> lang a \<and> y \<in> lang b}"
| "lang (Alt a b) = lang a \<union> lang b"
| "lang (Opt a) = insert [] (lang a)"
| "lang (Rep m mx p) =
     {w. list_all p w \<and> m \<le> length w \<and> (case mx of None \<Rightarrow> True | Some n \<Rightarrow> length w \<le> n)}"

text \<open>
  The parts of a lenient match. A scheme is empty or one of \<^verbatim>\<open>http://\<close>,
  \<^verbatim>\<open>https://\<close>, \<^verbatim>\<open>www.\<close>, \<^verbatim>\<open>ftp://\<close> in any case; a path is empty or a slash
  followed by characters other than white space, quotes and angle brackets.
\<close>

definition scheme_form :: "pystr \<Rightarrow> bool" where
  "scheme_form scheme \<longleftrightarrow>
     scheme = [] \<or> list_all2 ic_eq (str ''http://'') scheme \<or>
     list_all2 ic_eq (str ''https://'') scheme \<or> list_all2 ic_eq (str ''www.'') scheme \<or>
     list_all2 ic_eq (str ''ftp://'') scheme"

definition path_form :: "pystr \<Rightarrow> bool" where
  "path_form path \<longleftrightarrow> path = [] \<or> (\<exists>rest. path = 0x2F # rest \<and> list_all url_char rest)"

text \<open>
  The form of a lenient match as the pattern has it: the domain is a non-empty run of
  letters, digits, hyphens and dots, followed by a dot and 2 to 6 letters.
\<close>

definition lenient_form :: "pystr \<Rightarrow> bool" where
  "lenient_form u \<longleftrightarrow>
     (\<exists>scheme dom tld path.
        u = scheme @ dom @ [0x2E] @ tld @ path \<and> scheme_form scheme \<and>
        dom \<noteq> [] \<and> list_all domain_char dom \<and>
        2 \<le> length tld \<and> length tld \<le> 6 \<and> list_all is_letter tld \<and> path_form path)"

text \<open>
  The form of a lenient match in the words of the specification: the domain is one or
  more labels of letters, digits and hyphens, each followed by a dot, before the
  top-level label.
\<close>

definition label_char :: "nat \<Rightarrow> bool" where
  "label_char c \<longleftrightarrow> is_letter c \<or> is_digit c \<or> c = 0x2D"

definition spec_lenient_form :: "pystr \<Rightarrow> bool" where
  "spec_lenient_form u \<longleftrightarrow>
     (\<exists>scheme labels tld path.
        u = scheme @ concat (map (\<lambda>l. l @ [0x2E]) labels) @ tld @ path \<and> scheme_form scheme \<and>
        labels \<noteq> [] \<and> (\<forall>l \<in> set labels. l \<noteq> [] \<and> list_all label_char l) \<and>
        2 \<le> length tld \<and> length tld \<le> 6 \<and> list_all is_letter tld \<and> path_form path)"

text \<open>
  The tokens of a text: its maximal runs of characters other than white space, quotes
  and angle brackets, the characters at which both patterns stop.
\<close>

function tokens :: "pystr \<Rightarrow> pystr list" where
  "tokens [] = []"
| "tokens (c # s) =
     (if url_char c then takeWhile url_char (c # s) # tokens (dropWhile url_char s)
      else tokens s)"
  by pat_completeness auto
termination
  by (relation "measure length") (auto simp: le_imp_less_Suc length_dropWhile_le)

text \<open>An explicit prefix: \<^verbatim>\<open>http://\<close>, \<^verbatim>\<open>https://\<close> or \<^verbatim>\<open>www.\<close>, in any case.\<close>

definition explicit_scheme :: "pystr \<Rightarrow> bool" where
  "explicit_scheme scheme \<longleftrightarrow>
     list_all2 ic_eq (str ''http://'') scheme \<or> list_all2 ic_eq (str ''https://'') scheme \<or>
     list_all2 ic_eq (str ''www.'') scheme"

definition explicit_prefix :: "pystr \<Rightarrow> bool" where
  "explicit_prefix tok \<longleftrightarrow>
     explicit_scheme (take 7 tok) \<or> explicit_scheme (take 8 tok) \<or> explicit_scheme (take 4 tok)"

text \<open>
  A token is URL-like if it holds what one of the patterns looks for: an explicit
  prefix with at least one character after it, or a letter, digit, hyphen or dot
  followed by a dot and two letters.
\<close>

definition starts_prefixed :: "pystr \<Rightarrow> bool" where
  "starts_prefixed s \<longleftrightarrow>
     (explicit_scheme (take 7 s) \<and> 7 < length s) \<or> (explicit_scheme (take 8 s) \<and> 8 < length s) \<or>
     (explicit_scheme (take 4 s) \<and> 4 < length s)"

fun starts_dotted :: "pystr \<Rightarrow> bool" where
  "starts_dotted (d # p # a # b # s) \<longleftrightarrow> domain_char d \<and> p = 0x2E \<and> is_letter a \<and> is_letter b"
| "starts_dotted s \<longleftrightarrow> False"

fun url_like :: "pystr \<Rightarrow> bool" where
  "url_like [] \<longleftrightarrow> False"
| "url_like (c # s) \<longleftrightarrow> starts_prefixed (c # s) \<or> starts_dotted (c # s) \<or> url_like s"

text \<open>
  A URL on which the two patterns agree: an explicit prefix, a domain of letters,
  digits, hyphens and dots, a dot, a top-level label of 2 to 6 letters, and then
  nothing or a path that starts with a slash.
\<close>

definition plain_url :: "pystr \<Rightarrow> bool" where
  "plain_url tok \<longleftrightarrow>
     (\<exists>scheme dom tld path.
        tok = scheme @ dom @ [0x2E] @ tld @ path \<and> explicit_scheme scheme \<and>
        dom \<noteq> [] \<and> list_all domain_char dom \<and>
        2 \<le> length tld \<and> length tld \<le> 6 \<and> list_all is_letter tld \<and> path_form path)"

section \<open>Properties\<close>

subsection \<open>The index\<close>

lemma keys_setdefault_add:
  "map fst (setdefault_add occ u f) = (if u \<in> set (map fst occ) then map fst occ else map fst occ @ [u])"
  by (induction occ u f rule: setdefault_add.induct) auto

lemma files_of_setdefault_add_same:
  "files_of (setdefault_add occ u f) u = insert f (files_of occ u)"
  by (induction occ u f rule: setdefault_add.induct) (simp_all add: files_of_def)

lemma files_of_setdefault_add_other:
  "v \<noteq> u \<Longrightarrow> files_of (setdefault_add occ u f) v = files_of occ v"
  by (induction occ u f rule: setdefault_add.induct) (simp_all add: files_of_def)

lemma files_of_setdefault_add:
  "files_of (setdefault_add occ u f) v = (if v = u then insert f (files_of occ u) else files_of occ v)"
  by (simp add: files_of_setdefault_add_same files_of_setdefault_add_other)

lemma wf_index_setdefault_add: "wf_index occ \<Longrightarrow> wf_index (setdefault_add occ u f)"
proof (induction occ u f rule: setdefault_add.induct)
  case (1 u f)
  then show ?case by (simp add: wf_index_def)
next
  case (2 k fs occ u f)
  then have rest: "wf_index occ" by (simp add: wf_index_def)
  show ?case
  proof (cases "k = u")
    case True
    with 2 show ?thesis by (simp add: wf_index_def)
  next
    case False
    with 2 rest have "wf_index (setdefault_add occ u f)" by simp
    with 2(2) False show ?thesis
      by (auto simp: wf_index_def keys_setdefault_add)
  qed
qed

lemma keys_add_urls: "set (map fst (add_urls occ us f)) = set (map fst occ) \<union> set us"
  by (induction occ us f rule: add_urls.induct) (auto simp: keys_setdefault_add)

lemma files_of_add_urls:
  "files_of (add_urls occ us f) v = files_of occ v \<union> (if v \<in> set us then {f} else {})"
  by (induction occ us f rule: add_urls.induct) (auto simp: files_of_setdefault_add)

lemma wf_index_add_urls: "wf_index occ \<Longrightarrow> wf_index (add_urls occ us f)"
  by (induction occ us f rule: add_urls.induct) (auto simp: wf_index_setdefault_add)

lemma utf8_decode_ignore_total: "\<exists>t. utf8_decode Ignore bs = Inr t"
proof (induction bs rule: length_induct)
  case (1 bs)
  show ?case
  proof (cases bs)
    case Nil
    then show ?thesis by simp
  next
    case (Cons b0 rest)
    have IH: "\<exists>t. utf8_decode Ignore (drop n rest) = Inr t" for n
      using 1 Cons by simp
    show ?thesis
    proof (cases "utf8_next b0 rest")
      case (Scalar c n)
      obtain t where "utf8_decode Ignore (drop (n - 1) rest) = Inr t" using IH by blast
      with Cons Scalar show ?thesis by simp
    next
      case (Malformed n)
      obtain t where "utf8_decode Ignore (drop (n - 1) rest) = Inr t" using IH by blast
      with Cons Malformed show ?thesis by simp
    qed
  qed
qed

lemma read_file_ignore_cases:
  "(\<exists>e. f = Inl e \<and> read_file Ignore f = Inl (OSError e)) \<or> (\<exists>bs t. f = Inr bs \<and> read_file Ignore f = Inr t)"
proof (cases f)
  case (Inl e)
  then show ?thesis by (simp add: read_file_def)
next
  case (Inr bs)
  obtain t where "utf8_decode Ignore bs = Inr t" using utf8_decode_ignore_total by blast
  with Inr show ?thesis by (simp add: read_file_def)
qed

lemma foldl_add_urls:
  "foldl (\<lambda>acc (u, f). setdefault_add acc u f) occ (map (\<lambda>u. (u, p)) us) = add_urls occ us p"
  by (induction us arbitrary: occ) auto

lemma scan_entry_eq:
  "scan_entry regex d entry (occ, out) =
     Inr (foldl (\<lambda>acc (u, f). setdefault_add acc u f) occ (entry_matches regex d entry),
          out @ entry_report d entry)"
proof (cases entry)
  case (Pair name f)
  show ?thesis
  proof (cases "endswith (lower name) (str ''.txt'')")
    case False
    with Pair show ?thesis by (simp add: scan_entry_def entry_matches_def entry_report_def)
  next
    case True
    from read_file_ignore_cases[of f] show ?thesis
    proof (elim disjE exE conjE)
      fix e assume "f = Inl e" "read_file Ignore f = Inl (OSError e)"
      with Pair True show ?thesis by (simp add: scan_entry_def entry_matches_def entry_report_def)
    next
      fix bs t assume "f = Inr bs" "read_file Ignore f = Inr t"
      with Pair True show ?thesis
        by (simp add: scan_entry_def entry_matches_def entry_report_def foldl_add_urls)
    qed
  qed
qed

lemma scan_files_eq:
  "scan_files regex d listing (occ, out) =
     Inr (foldl (\<lambda>acc (u, f). setdefault_add acc u f) occ (matches_in regex d listing),
          out @ concat (map (entry_report d) listing))"
  by (induction listing arbitrary: occ out) (simp_all add: matches_in_def scan_entry_eq)

subsection \<open>Counts\<close>

lemma occurrence_table_Cons:
  "occurrence_table ((u, fs) # occ) =
     map (\<lambda>f. \<lparr>url = u, file = f\<rparr>) (sorted_list_of_set fs) @ occurrence_table occ"
  by (simp add: occurrence_table_def)

lemma occurrence_table_Nil: "occurrence_table [] = []"
  by (simp add: occurrence_table_def)

lemma length_occurrence_table:
  "length (occurrence_table occ) = sum_list (map (\<lambda>(u, fs). card fs) occ)"
  by (induction occ) (auto simp: occurrence_table_Cons occurrence_table_Nil)

lemma wf_index_Cons:
  "wf_index ((u, fs) # occ) \<longleftrightarrow> u \<notin> fst ` set occ \<and> finite fs \<and> fs \<noteq> {} \<and> wf_index occ"
  by (auto simp: wf_index_def)

lemma count_ge: "wf_index occ \<Longrightarrow> length occ \<le> sum_list (map (\<lambda>(u, fs). card fs) occ)"
proof (induction occ)
  case Nil
  then show ?case by simp
next
  case (Cons p occ)
  obtain u fs where p: "p = (u, fs)" by (cases p)
  from Cons.prems p have "finite fs" "fs \<noteq> {}" "wf_index occ" by (simp_all add: wf_index_Cons)
  then have "1 \<le> card fs" by (simp add: Suc_le_eq card_gt_0_iff)
  with Cons.IH \<open>wf_index occ\<close> p show ?case by simp
qed

lemma count_eq_iff:
  "wf_index occ \<Longrightarrow>
     sum_list (map (\<lambda>(u, fs). card fs) occ) = length occ \<longleftrightarrow> (\<forall>(u, fs) \<in> set occ. card fs = 1)"
proof (induction occ)
  case Nil
  then show ?case by simp
next
  case (Cons p occ)
  obtain u fs where p: "p = (u, fs)" by (cases p)
  from Cons.prems p have fs: "finite fs" "fs \<noteq> {}" and wf: "wf_index occ"
    by (simp_all add: wf_index_Cons)
  from fs have c: "1 \<le> card fs" by (simp add: Suc_le_eq card_gt_0_iff)
  from count_ge[OF wf] have g: "length occ \<le> sum_list (map (\<lambda>(u, fs). card fs) occ)" .
  from Cons.IH[OF wf] have IH:
    "sum_list (map (\<lambda>(u, fs). card fs) occ) = length occ \<longleftrightarrow> (\<forall>(u, fs) \<in> set occ. card fs = 1)" .
  have "card fs + sum_list (map (\<lambda>(u, fs). card fs) occ) = Suc (length occ) \<longleftrightarrow>
        card fs = 1 \<and> sum_list (map (\<lambda>(u, fs). card fs) occ) = length occ"
    using c g by arith
  with IH p show ?case by simp
qed

text \<open>
  Claim C5. For every occurrence index, the number of records of the occurrence table
  is the sum of the sizes of the file sets; it is at least the number of distinct URLs,
  and equal to it exactly when every URL has a file set of one element.
\<close>

theorem count_relation:
  assumes "wf_index occ"
  shows "length (occurrence_table occ) = sum_list (map (\<lambda>(u, fs). card fs) occ) \<and>
         length occ = card (fst ` set occ) \<and>
         length occ \<le> length (occurrence_table occ) \<and>
         (length (occurrence_table occ) = length occ \<longleftrightarrow> (\<forall>(u, fs) \<in> set occ. card fs = 1))"
proof -
  from assms have "distinct (map fst occ)" by (simp add: wf_index_def)
  then have "card (fst ` set occ) = length occ"
    using distinct_card[of "map fst occ"] by simp
  with count_ge[OF assms] count_eq_iff[OF assms] show ?thesis
    by (simp add: length_occurrence_table)
qed

theorem count_relation_witness:
  "wf_index [([97], {[102], [103]}), ([98], {[102]})] \<and>
   length (occurrence_table [([97], {[102], [103]}), ([98], {[102]})]) = 3 \<and>
   length [([97::nat], {[102::nat], [103]}), ([98], {[102]})] < 3"
proof -
  have h: "wf_index [([97], {[102], [103]}), ([98], {[102]})]"
    by (simp add: wf_index_def)
  from count_relation[OF h] h show ?thesis by simp
qed

subsection \<open>The unique list\<close>

lemma lines_from_line:
  "10 \<notin> set u \<Longrightarrow> lines_from cur (u @ 10 # t) = map_option ((#) (cur @ u)) (lines_from [] t)"
  by (induction u arbitrary: cur) auto

lemma terminated_lines_write_lines:
  "\<forall>u \<in> set ls. 10 \<notin> set u \<Longrightarrow> terminated_lines (write_lines ls) = Some ls"
proof (induction ls)
  case Nil
  then show ?case by (simp add: terminated_lines_def write_lines_def)
next
  case (Cons u ls)
  then have u: "10 \<notin> set u" and IH: "lines_from [] (write_lines ls) = Some ls"
    by (simp_all add: terminated_lines_def)
  have "write_lines (u # ls) = u @ 10 # write_lines ls" by (simp add: write_lines_def)
  with lines_from_line[OF u, of "[]" "write_lines ls"] IH show ?case
    by (simp add: terminated_lines_def)
qed

lemma utf8_encodable_append:
  "utf8_encodable (xs @ ys) \<longleftrightarrow> utf8_encodable xs \<and> utf8_encodable ys"
  by (simp add: utf8_encodable_def)

lemma utf8_encodable_write_lines:
  "utf8_encodable (write_lines ls) \<longleftrightarrow> list_all utf8_encodable ls"
  by (induction ls) (simp_all add: write_lines_def utf8_encodable_def)

text \<open>
  Claim C4. For every occurrence index, when the unique-list shape is written, the
  output is the URLs of the index, each one once, in ascending order of code points,
  each followed by a newline, the last one too. If no URL contains a newline, the
  lines of the output are exactly these URLs. The write succeeds exactly if every URL
  can be encoded, and raises \<^verbatim>\<open>UnicodeEncodeError\<close> otherwise. Every URL that the scan
  takes from the decoded content of a file can be encoded (\<open>scan_urls_encodable\<close>), so
  that on the index of the scan the unique list is always written
  (\<open>unique_list_is_written\<close>).
\<close>

theorem unique_list_rendering:
  assumes "distinct (map fst occ)" and "\<not> endswith (lower output_file) (str ''.json'')"
  shows "\<exists>ls. sorted ls \<and> distinct ls \<and> set ls = fst ` set occ \<and>
              (if list_all utf8_encodable ls then
                 \<exists>res. write_output output_file (occ, out) = Inr res \<and>
                   written res = concat (map (\<lambda>u. u @ [10]) ls) \<and>
                   ((\<forall>u \<in> set ls. 10 \<notin> set u) \<longrightarrow> terminated_lines (written res) = Some ls)
               else write_output output_file (occ, out) = Inl UnicodeEncodeError)"
proof (intro exI[of _ "unique_list occ"] conjI)
  show "sorted (unique_list occ)" by (simp add: unique_list_def)
  show "distinct (unique_list occ)" using assms(1) by (simp add: unique_list_def)
  show "set (unique_list occ) = fst ` set occ" by (simp add: unique_list_def)
  show "if list_all utf8_encodable (unique_list occ) then
          \<exists>res. write_output output_file (occ, out) = Inr res \<and>
            written res = concat (map (\<lambda>u. u @ [10]) (unique_list occ)) \<and>
            ((\<forall>u \<in> set (unique_list occ). 10 \<notin> set u) \<longrightarrow>
               terminated_lines (written res) = Some (unique_list occ))
        else write_output output_file (occ, out) = Inl UnicodeEncodeError"
  proof (cases "list_all utf8_encodable (unique_list occ)")
    case True
    let ?res = "\<lparr>written = write_lines (unique_list occ),
                   printed = out @ [ExtractedUnique (length occ) output_file]\<rparr>"
    from True assms(2) have a: "write_output output_file (occ, out) = Inr ?res"
      by (simp add: write_output_def file_write_def utf8_encodable_write_lines)
    have b: "written ?res = concat (map (\<lambda>u. u @ [10]) (unique_list occ))"
      by (simp add: write_lines_def)
    have c: "(\<forall>u \<in> set (unique_list occ). 10 \<notin> set u) \<longrightarrow>
        terminated_lines (written ?res) = Some (unique_list occ)"
      using terminated_lines_write_lines[of "unique_list occ"] by simp
    have "\<exists>res. write_output output_file (occ, out) = Inr res \<and>
            written res = concat (map (\<lambda>u. u @ [10]) (unique_list occ)) \<and>
            ((\<forall>u \<in> set (unique_list occ). 10 \<notin> set u) \<longrightarrow>
               terminated_lines (written res) = Some (unique_list occ))"
      using a b c by (intro exI[of _ ?res] conjI)
    with True show ?thesis by (simp only: if_True)
  next
    case False
    with assms(2) show ?thesis
      by (simp add: write_output_def file_write_def utf8_encodable_write_lines)
  qed
qed

theorem unique_list_rendering_witness:
  "distinct (map fst [([98::nat], {[102::nat]}), ([97, 99], {[102], [103]}), ([97], {[103]})]) \<and>
   \<not> endswith (lower (str ''urls.txt'')) (str ''.json'') \<and>
   (\<exists>res. write_output (str ''urls.txt'')
            ([([98], {[102]}), ([97, 99], {[102], [103]}), ([97], {[103]})], []) = Inr res \<and>
          terminated_lines (written res) = Some [[97], [97, 99], [98]] \<and>
          written res = [97, 10, 97, 99, 10, 98, 10])"
proof -
  let ?occ = "[([98::nat], {[102::nat]}), ([97, 99], {[102], [103]}), ([97], {[103]})]"
  have d: "distinct (map fst ?occ)" by simp
  have e: "\<not> endswith (lower (str ''urls.txt'')) (str ''.json'')"
    by (simp add: endswith_def lower_def lower_cp_def)
  from unique_list_rendering[OF d e, of "[]"] obtain ls where
    ls: "sorted ls" "distinct ls" "set ls = fst ` set ?occ"
      and w: "if list_all utf8_encodable ls then
                \<exists>res. write_output (str ''urls.txt'') (?occ, []) = Inr res \<and>
                  written res = concat (map (\<lambda>u. u @ [10]) ls) \<and>
                  ((\<forall>u \<in> set ls. 10 \<notin> set u) \<longrightarrow> terminated_lines (written res) = Some ls)
              else write_output (str ''urls.txt'') (?occ, []) = Inl UnicodeEncodeError"
    by blast
  from ls(3) have enc: "list_all utf8_encodable ls" and nl: "\<forall>u \<in> set ls. 10 \<notin> set u"
    by (auto simp: list_all_iff utf8_encodable_def)
  from w enc have "\<exists>res. write_output (str ''urls.txt'') (?occ, []) = Inr res \<and>
                  written res = concat (map (\<lambda>u. u @ [10]) ls) \<and>
                  ((\<forall>u \<in> set ls. 10 \<notin> set u) \<longrightarrow> terminated_lines (written res) = Some ls)"
    by (simp only: if_True)
  then obtain res where
    r: "write_output (str ''urls.txt'') (?occ, []) = Inr res"
      and t': "(\<forall>u \<in> set ls. 10 \<notin> set u) \<longrightarrow> terminated_lines (written res) = Some ls"
    by (elim exE conjE)
  from t' nl have t: "terminated_lines (written res) = Some ls" by (rule mp)
  have "write_output (str ''urls.txt'') (?occ, []) =
      Inr \<lparr>written = [97, 10, 97, 99, 10, 98, 10],
           printed = [ExtractedUnique 3 (str ''urls.txt'')]\<rparr>"
    using e by (simp add: write_output_def write_lines_def unique_list_def file_write_def
        utf8_encodable_def)
  with r have v: "written res = [97, 10, 97, 99, 10, 98, 10]" by simp
  with t have "ls = [[97], [97, 99], [98]]" by (simp add: terminated_lines_def)
  with r t v d e show ?thesis by simp
qed

subsection \<open>The index built by the scan\<close>

lemma keys_setdefault_add_set:
  "fst ` set (setdefault_add occ u f) = insert u (fst ` set occ)"
  by (induction occ u f rule: setdefault_add.induct) auto

lemma keys_foldl:
  "fst ` set (foldl add_pair occ ps) = fst ` set occ \<union> fst ` set ps"
proof (induction ps arbitrary: occ)
  case Nil
  then show ?case by simp
next
  case (Cons p ps)
  obtain u f where p: "p = (u, f)" by (cases p)
  show ?case using Cons[of "setdefault_add occ u f"] p
    by (simp add: keys_setdefault_add_set)
qed

lemma files_of_foldl:
  "files_of (foldl add_pair occ ps) v = files_of occ v \<union> {f. (v, f) \<in> set ps}"
  by (induction ps arbitrary: occ) (auto simp: files_of_setdefault_add split: if_splits)

lemma wf_index_foldl: "wf_index occ \<Longrightarrow> wf_index (foldl add_pair occ ps)"
  by (induction ps arbitrary: occ) (auto simp: wf_index_setdefault_add)

lemma files_of_mem:
  "distinct (map fst occ) \<Longrightarrow> (u, fs) \<in> set occ \<Longrightarrow> files_of occ u = fs"
  by (simp add: files_of_def)

lemma set_entry_matches:
  "(u, p) \<in> set (entry_matches regex d entry) \<longleftrightarrow>
     matched_in regex u entry \<and> p = os_path_join d (fst entry)"
proof (cases entry)
  case (Pair name f)
  show ?thesis
  proof (cases "endswith (lower name) (str ''.txt'')")
    case True
    with Pair show ?thesis
      by (cases "read_file Ignore f") (simp_all add: entry_matches_def matched_in_def image_iff)
  next
    case False
    with Pair show ?thesis by (simp add: entry_matches_def matched_in_def)
  qed
qed

lemma set_matches_in:
  "(u, p) \<in> set (matches_in regex d listing) \<longleftrightarrow>
     (\<exists>entry \<in> set listing. matched_in regex u entry \<and> p = os_path_join d (fst entry))"
  by (auto simp: matches_in_def set_entry_matches)

lemma distinct_occurrence_table:
  "distinct (map fst occ) \<Longrightarrow> distinct (occurrence_table occ)"
proof (induction occ)
  case Nil
  then show ?case by (simp add: occurrence_table_Nil)
next
  case (Cons p occ)
  obtain u fs where p: "p = (u, fs)" by (cases p)
  have urls: "url ` set (occurrence_table occ) \<subseteq> fst ` set occ"
    by (force simp: occurrence_table_def)
  from Cons p have "u \<notin> fst ` set occ" by simp
  with urls have "\<forall>r \<in> set (occurrence_table occ). url r \<noteq> u" by auto
  moreover have "distinct (map (\<lambda>f. \<lparr>url = u, file = f\<rparr>) (sorted_list_of_set fs))"
    by (simp add: distinct_map inj_on_def)
  ultimately show ?case using Cons p by (auto simp: occurrence_table_Cons)
qed


text \<open>The equations that evaluate the model on a concrete input.\<close>

lemmas rx_defs = LENIENT_URL_REGEX_def LENIENT_SCHEME_def LENIENT_DOMAIN_def LENIENT_PATH_def
  URL_REGEX_def STRICT_SCHEME_def STRICT_BODY_def
lemmas cls_defs = ic_eq_def is_letter_def is_digit_def domain_char_def url_char_def is_space_def
lemmas find_defs = matchStrict_def matchLenient_def findall.simps match_len_def rx_defs cls_defs
lemmas read_defs = read_file_def utf8_next_def is_cont_def
lemmas name_defs = endswith_def lower_def lower_cp_def os_path_join_def

text \<open>
  Claim C3. For every directory listing and every pattern, the scan returns an index
  in which: a URL is a key exactly if the pattern matched it in the content of at least
  one scanned file; the keys are distinct; the file set of every key is finite, not
  empty, and consists of the paths of exactly the files in which the pattern matched
  the URL; and no (url, file) record occurs twice in the occurrence table, however many
  times the URL matched within the file.
\<close>

theorem index_invariant:
  "\<exists>idx out. scan_files regex input_dir listing ([], []) = Inr (idx, out) \<and>
     distinct (map fst idx) \<and>
     (\<forall>u. u \<in> fst ` set idx \<longleftrightarrow> (\<exists>entry \<in> set listing. matched_in regex u entry)) \<and>
     (\<forall>(u, fs) \<in> set idx.
        finite fs \<and> fs \<noteq> {} \<and>
        fs = {os_path_join input_dir (fst entry) | entry.
                entry \<in> set listing \<and> matched_in regex u entry}) \<and>
     distinct (occurrence_table idx)"
proof -
  define idx where "idx = foldl add_pair [] (matches_in regex input_dir listing)"
  have run: "scan_files regex input_dir listing ([], []) =
               Inr (idx, concat (map (entry_report input_dir) listing))"
    by (simp add: scan_files_eq idx_def)
  have wf: "wf_index idx"
    unfolding idx_def by (rule wf_index_foldl) (simp add: wf_index_def)
  then have d: "distinct (map fst idx)" by (simp add: wf_index_def)
  have keys: "u \<in> fst ` set idx \<longleftrightarrow> (\<exists>entry \<in> set listing. matched_in regex u entry)" for u
  proof -
    have "u \<in> fst ` set idx \<longleftrightarrow> (\<exists>p. (u, p) \<in> set (matches_in regex input_dir listing))"
      unfolding idx_def keys_foldl by force
    then show ?thesis by (auto simp: set_matches_in)
  qed
  have files: "finite fs \<and> fs \<noteq> {} \<and>
        fs = {os_path_join input_dir (fst entry) | entry.
                entry \<in> set listing \<and> matched_in regex u entry}"
    if m: "(u, fs) \<in> set idx" for u fs
  proof -
    from wf m have "finite fs \<and> fs \<noteq> {}" by (auto simp: wf_index_def list_all_iff)
    moreover have "files_of idx u = fs" using d m by (rule files_of_mem)
    moreover have "files_of idx u = {p. (u, p) \<in> set (matches_in regex input_dir listing)}"
      unfolding idx_def files_of_foldl by (simp add: files_of_def)
    ultimately show ?thesis by (auto simp: set_matches_in)
  qed
  from run d keys files distinct_occurrence_table[OF d] show ?thesis by blast
qed

theorem index_invariant_witness:
  "\<exists>idx out.
     scan_files URL_REGEX (str ''t'')
        [(str ''a.txt'', Inr (map of_char ''http://x.y http://x.y''))] ([], []) = Inr (idx, out) \<and>
     str ''http://x.y'' \<in> fst ` set idx \<and>
     (\<forall>(u, fs) \<in> set idx. u = str ''http://x.y'' \<longrightarrow> fs = {str ''t/a.txt''}) \<and>
     distinct (occurrence_table idx)"
proof -
  let ?L = "[(str ''a.txt'', Inr (map of_char ''http://x.y http://x.y'') :: disk_file)]"
  have m: "matched_in URL_REGEX u (str ''a.txt'', Inr (map of_char ''http://x.y http://x.y'')) \<longleftrightarrow>
             u = str ''http://x.y''" for u
    by (simp add: matched_in_def name_defs read_defs find_defs)
  from index_invariant[of URL_REGEX "str ''t''" ?L] obtain idx out where
    r: "scan_files URL_REGEX (str ''t'') ?L ([], []) = Inr (idx, out)"
    and k: "\<forall>u. u \<in> fst ` set idx \<longleftrightarrow> (\<exists>entry \<in> set ?L. matched_in URL_REGEX u entry)"
    and f: "\<forall>(u, fs) \<in> set idx. finite fs \<and> fs \<noteq> {} \<and>
        fs = {os_path_join (str ''t'') (fst entry) | entry.
                entry \<in> set ?L \<and> matched_in URL_REGEX u entry}"
    and d: "distinct (occurrence_table idx)"
    by blast
  from k m have k': "str ''http://x.y'' \<in> fst ` set idx" by simp
  have p: "os_path_join (str ''t'') (str ''a.txt'') = str ''t/a.txt''"
    by (simp add: name_defs)
  have f': "\<forall>(u, fs) \<in> set idx. u = str ''http://x.y'' \<longrightarrow> fs = {str ''t/a.txt''}"
  proof (intro ballI, clarify)
    fix fs assume "(str ''http://x.y'', fs) \<in> set idx"
    with f have "fs = {os_path_join (str ''t'') (fst entry) | entry.
                entry \<in> set ?L \<and> matched_in URL_REGEX (str ''http://x.y'') entry}" by blast
    also have "\<dots> = {os_path_join (str ''t'') (str ''a.txt'')}" using m by auto
    finally show "fs = {str ''t/a.txt''}" using p by simp
  qed
  from r k' f' d show ?thesis by blast
qed

subsection \<open>Files that cannot be read\<close>






lemma matched_in_readable: "matched_in regex u entry \<Longrightarrow> readable entry"
proof (cases entry)
  case (Pair name f)
  assume "matched_in regex u entry"
  with Pair show ?thesis
    by (cases f) (simp_all add: matched_in_def readable_def read_file_def)
qed

lemma readable_matched_in:
  "readable entry \<and> matched_in regex u entry \<longleftrightarrow> matched_in regex u entry"
  using matched_in_readable by blast

lemma scan_keys:
  "u \<in> fst ` set (foldl add_pair [] (matches_in regex d listing)) \<longleftrightarrow>
     (\<exists>entry \<in> set listing. readable entry \<and> matched_in regex u entry)"
proof -
  have "u \<in> fst ` set (foldl add_pair [] (matches_in regex d listing)) \<longleftrightarrow>
          (\<exists>p. (u, p) \<in> set (matches_in regex d listing))"
    unfolding keys_foldl by force
  also have "\<dots> \<longleftrightarrow> (\<exists>entry \<in> set listing. matched_in regex u entry)"
    by (auto simp: set_matches_in)
  finally show ?thesis by (simp only: readable_matched_in)
qed




subsection \<open>The suffix tests\<close>

lemma endswith_iff: "endswith s suf \<longleftrightarrow> (\<exists>pre. s = pre @ suf)"
proof
  assume "endswith s suf"
  then have "s = take (length s - length suf) s @ suf"
    by (metis append_take_drop_id endswith_def)
  then show "\<exists>pre. s = pre @ suf" ..
next
  assume "\<exists>pre. s = pre @ suf"
  then show "endswith s suf" by (auto simp: endswith_def)
qed

lemma ends_ignoring_case_iff:
  "ends_ignoring_case name suf \<longleftrightarrow>
     (\<exists>stem tail. name = stem @ tail \<and> list_all2 ascii_ci_eq tail suf)"
proof
  assume a: "ends_ignoring_case name suf"
  have "name = take (length name - length suf) name @ drop (length name - length suf) name"
    by simp
  with a show "\<exists>stem tail. name = stem @ tail \<and> list_all2 ascii_ci_eq tail suf"
    unfolding ends_ignoring_case_def by blast
next
  assume "\<exists>stem tail. name = stem @ tail \<and> list_all2 ascii_ci_eq tail suf"
  then obtain stem tail where n: "name = stem @ tail" and t: "list_all2 ascii_ci_eq tail suf"
    by blast
  from t have "length tail = length suf" by (rule list_all2_lengthD)
  with n t show "ends_ignoring_case name suf"
    by (simp add: ends_ignoring_case_def)
qed

lemma lower_append: "lower (xs @ ys) = lower xs @ lower ys"
  by (simp add: lower_def)

lemma lower_cp_last:
  "plain_char l \<Longrightarrow> (\<exists>pre. lower_cp c = pre @ [l]) \<longleftrightarrow> ascii_ci_eq c l"
  by (auto simp: lower_cp_def plain_char_def ascii_ci_eq_def Cons_eq_append_conv)

lemma lower_cp_single: "plain_char l \<Longrightarrow> ascii_ci_eq c l \<Longrightarrow> lower_cp c = [l]"
  by (auto simp: lower_cp_def plain_char_def ascii_ci_eq_def)

lemma lower_cp_shape: "(\<exists>y. lower_cp c = [y]) \<or> lower_cp c = [0x69, 0x307]"
  by (simp add: lower_cp_def)

lemma endswith_lower_snoc:
  assumes "plain_char l"
  shows "endswith (lower (name @ [c])) (suf @ [l]) \<longleftrightarrow>
           ascii_ci_eq c l \<and> endswith (lower name) suf"
proof
  assume "endswith (lower (name @ [c])) (suf @ [l])"
  then obtain pre where e: "lower name @ lower_cp c = pre @ suf @ [l]"
    by (auto simp: endswith_iff lower_append lower_def)
  from lower_cp_shape[of c] show "ascii_ci_eq c l \<and> endswith (lower name) suf"
  proof
    assume "\<exists>y. lower_cp c = [y]"
    then obtain y where y: "lower_cp c = [y]" ..
    with e have "lower name @ [y] = (pre @ suf) @ [l]" by simp
    then have "lower name = pre @ suf" and "y = l" by simp_all
    with y assms lower_cp_last[of l c] show ?thesis by (auto simp: endswith_iff)
  next
    assume "lower_cp c = [0x69, 0x307]"
    with e have "(lower name @ [0x69]) @ [0x307] = (pre @ suf) @ [l]" by simp
    then have "l = 0x307" by (simp only: append1_eq_conv)
    with assms show ?thesis by (simp add: plain_char_def)
  qed
next
  assume "ascii_ci_eq c l \<and> endswith (lower name) suf"
  then obtain pre where "lower_cp c = [l]" and "lower name = pre @ suf"
    using assms lower_cp_single by (auto simp: endswith_iff)
  then show "endswith (lower (name @ [c])) (suf @ [l])"
    by (auto simp: endswith_iff lower_append lower_def)
qed

lemma ends_ignoring_case_snoc:
  "ends_ignoring_case (name @ [c]) (suf @ [l]) \<longleftrightarrow> ascii_ci_eq c l \<and> ends_ignoring_case name suf"
proof
  assume "ends_ignoring_case (name @ [c]) (suf @ [l])"
  then obtain stem tail where n: "name @ [c] = stem @ tail"
    and t: "list_all2 ascii_ci_eq tail (suf @ [l])"
    by (auto simp: ends_ignoring_case_iff)
  from t obtain tail' c' where tl: "tail = tail' @ [c']" and t': "list_all2 ascii_ci_eq tail' suf"
    and cl: "ascii_ci_eq c' l"
    by (auto simp: list_all2_append2 list_all2_Cons2)
  from n tl have "name @ [c] = (stem @ tail') @ [c']" by simp
  then have "name = stem @ tail'" "c = c'" by simp_all
  with t' cl show "ascii_ci_eq c l \<and> ends_ignoring_case name suf"
    by (auto simp: ends_ignoring_case_iff)
next
  assume "ascii_ci_eq c l \<and> ends_ignoring_case name suf"
  then obtain stem tail where "name = stem @ tail" "list_all2 ascii_ci_eq tail suf" "ascii_ci_eq c l"
    by (auto simp: ends_ignoring_case_iff)
  then have "name @ [c] = stem @ (tail @ [c])" "list_all2 ascii_ci_eq (tail @ [c]) (suf @ [l])"
    by (simp_all add: list_all2_appendI)
  then show "ends_ignoring_case (name @ [c]) (suf @ [l])"
    unfolding ends_ignoring_case_iff by blast
qed

lemma endswith_lower_iff:
  "list_all plain_char suf \<Longrightarrow> endswith (lower name) suf \<longleftrightarrow> ends_ignoring_case name suf"
proof (induction suf arbitrary: name rule: rev_induct)
  case Nil
  then show ?case by (simp add: endswith_def ends_ignoring_case_def)
next
  case (snoc l suf)
  then have pl: "plain_char l" and ps: "list_all plain_char suf" by simp_all
  show ?case
  proof (cases name rule: rev_cases)
    case Nil
    then show ?thesis by (simp add: endswith_def ends_ignoring_case_def lower_def)
  next
    case (snoc name' c)
    with endswith_lower_snoc[OF pl] ends_ignoring_case_snoc snoc.IH[OF ps]
    show ?thesis by simp
  qed
qed


text \<open>
  Claim C10. Both suffix tests ignore case. A directory entry is scanned exactly if
  its name ends in \<^verbatim>\<open>.txt\<close> when the case of ASCII letters is ignored, as
  \<^verbatim>\<open>DOC.TXT\<close> does, and is left alone otherwise; the occurrence table is the shape
  written, as JSON, exactly if the name of the output file ends in \<^verbatim>\<open>.json\<close> in the
  same sense, as \<^verbatim>\<open>out.JSON\<close> does, and the unique list is the shape written
  otherwise. In either shape the write gives the whole text if it can be encoded and
  raises \<^verbatim>\<open>UnicodeEncodeError\<close> if it cannot.
\<close>

theorem suffix_checks_ignore_case:
  "(endswith (lower filename) (str ''.txt'') \<longleftrightarrow> ends_ignoring_case filename (str ''.txt'')) \<and>
   (endswith (lower output_file) (str ''.json'') \<longleftrightarrow>
      ends_ignoring_case output_file (str ''.json'')) \<and>
   scan_entry regex input_dir (filename, f) (occ, out) =
     (if ends_ignoring_case filename (str ''.txt'') then
        (case read_file Ignore f of
           Inr content \<Rightarrow>
             Inr (add_urls occ (findall regex content) (os_path_join input_dir filename), out)
         | Inl (OSError e) \<Rightarrow> Inr (occ, out @ [CouldNotRead (os_path_join input_dir filename) e])
         | Inl e \<Rightarrow> Inl e)
      else Inr (occ, out)) \<and>
   write_output output_file (occ, out) =
     (if ends_ignoring_case output_file (str ''.json'') then
        (if utf8_encodable (json_dump (occurrence_table occ)) then
           Inr \<lparr>written = json_dump (occurrence_table occ),
                printed = out @ [ExtractedOccurrences (length (occurrence_table occ)) output_file]\<rparr>
         else Inl UnicodeEncodeError)
      else
        (if utf8_encodable (write_lines (unique_list occ)) then
           Inr \<lparr>written = write_lines (unique_list occ),
                printed = out @ [ExtractedUnique (length occ) output_file]\<rparr>
         else Inl UnicodeEncodeError)) \<and>
   ends_ignoring_case (str ''DOC.TXT'') (str ''.txt'') \<and>
   ends_ignoring_case (str ''out.JSON'') (str ''.json'')"
proof -
  have t_eq: "endswith (lower n) (str ''.txt'') \<longleftrightarrow> ends_ignoring_case n (str ''.txt'')" for n
    by (rule endswith_lower_iff) (simp add: plain_char_def)
  have j_eq: "endswith (lower n) (str ''.json'') \<longleftrightarrow> ends_ignoring_case n (str ''.json'')" for n
    by (rule endswith_lower_iff) (simp add: plain_char_def)
  have scan: "scan_entry regex input_dir (filename, f) (occ, out) =
     (if ends_ignoring_case filename (str ''.txt'') then
        (case read_file Ignore f of
           Inr content \<Rightarrow>
             Inr (add_urls occ (findall regex content) (os_path_join input_dir filename), out)
         | Inl (OSError e) \<Rightarrow> Inr (occ, out @ [CouldNotRead (os_path_join input_dir filename) e])
         | Inl e \<Rightarrow> Inl e)
      else Inr (occ, out))"
    unfolding t_eq[symmetric] by (simp add: scan_entry_def Let_def)
  have wr: "write_output output_file (occ, out) =
     (if ends_ignoring_case output_file (str ''.json'') then
        (if utf8_encodable (json_dump (occurrence_table occ)) then
           Inr \<lparr>written = json_dump (occurrence_table occ),
                printed = out @ [ExtractedOccurrences (length (occurrence_table occ)) output_file]\<rparr>
         else Inl UnicodeEncodeError)
      else
        (if utf8_encodable (write_lines (unique_list occ)) then
           Inr \<lparr>written = write_lines (unique_list occ),
                printed = out @ [ExtractedUnique (length occ) output_file]\<rparr>
         else Inl UnicodeEncodeError))"
    unfolding j_eq[symmetric] by (simp add: write_output_def file_write_def Let_def)
  have ex1: "ends_ignoring_case (str ''DOC.TXT'') (str ''.txt'')"
    by (simp add: ends_ignoring_case_def ascii_ci_eq_def)
  have ex2: "ends_ignoring_case (str ''out.JSON'') (str ''.json'')"
    by (simp add: ends_ignoring_case_def ascii_ci_eq_def)
  from t_eq j_eq scan wr ex1 ex2 show ?thesis by blast
qed

theorem suffix_checks_ignore_case_witness:
  "endswith (lower (str ''DOC.TXT'')) (str ''.txt'') \<and>
   endswith (lower (str ''out.JSON'')) (str ''.json'') \<and>
   \<not> endswith (lower (str ''notes.text'')) (str ''.txt'') \<and>
   scan_entry URL_REGEX (str ''t'') (str ''notes.text'', Inr (map of_char ''http://x.y''))
     ([([97], {[102]})], []) = Inr ([([97], {[102]})], []) \<and>
   write_output (str ''out.JSON'') ([([97], {[102]})], []) =
     Inr \<lparr>written = json_dump [\<lparr>url = [97], file = [102]\<rparr>],
          printed = [ExtractedOccurrences 1 (str ''out.JSON'')]\<rparr> \<and>
   write_output (str ''out.JSON'') ([([97], {[0xDCE9]})], []) = Inl UnicodeEncodeError \<and>
   write_output (str ''out.jsn'') ([([97], {[0xDCE9]})], []) =
     Inr \<lparr>written = [97, 10], printed = [ExtractedUnique 1 (str ''out.jsn'')]\<rparr>"
  using suffix_checks_ignore_case[of "str ''DOC.TXT''" "str ''out.JSON''" URL_REGEX "str ''t''"
      "Inr (map of_char ''http://x.y'')" "[]" "[]"]
    suffix_checks_ignore_case[of "str ''notes.text''" "str ''out.JSON''" URL_REGEX "str ''t''"
      "Inr (map of_char ''http://x.y'')" "[([97], {[102]})]" "[]"]
    suffix_checks_ignore_case[of "str ''notes.text''" "str ''out.JSON''" URL_REGEX "str ''t''"
      "Inr (map of_char ''http://x.y'')" "[([97], {[0xDCE9]})]" "[]"]
    suffix_checks_ignore_case[of "str ''notes.text''" "str ''out.jsn''" URL_REGEX "str ''t''"
      "Inr (map of_char ''http://x.y'')" "[([97], {[0xDCE9]})]" "[]"]
  by (simp add: ends_ignoring_case_def ascii_ci_eq_def occurrence_table_def Let_def
      json_dump_def json_object_def json_string_def json_escape_def utf8_encodable_def
      unique_list_def write_lines_def)

subsection \<open>The order of the occurrence table\<close>

lemma sort_distinct_eq_sorted_list_of_set:
  "distinct xs \<Longrightarrow> sort xs = sorted_list_of_set (set xs)"
  by (simp add: sorted_list_of_set_sort_remdups distinct_remdups_id)

lemma matches_in_set_cong:
  "set listing1 = set listing2 \<Longrightarrow>
     set (matches_in regex d listing1) = set (matches_in regex d listing2)"
  by (auto simp: set_matches_in)

lemma index_contents_independent_of_order:
  assumes "set listing1 = set listing2"
    and "scan_files regex d listing1 ([], []) = Inr (idx1, out1)"
    and "scan_files regex d listing2 ([], []) = Inr (idx2, out2)"
  shows "fst ` set idx1 = fst ` set idx2"
    and "files_of idx1 u = files_of idx2 u"
    and "write_lines (unique_list idx1) = write_lines (unique_list idx2)"
proof -
  from assms(2) have i1: "idx1 = foldl add_pair [] (matches_in regex d listing1)"
    by (simp add: scan_files_eq)
  from assms(3) have i2: "idx2 = foldl add_pair [] (matches_in regex d listing2)"
    by (simp add: scan_files_eq)
  from matches_in_set_cong[OF assms(1)]
  have m: "set (matches_in regex d listing1) = set (matches_in regex d listing2)" .
  show k: "fst ` set idx1 = fst ` set idx2" by (simp add: i1 i2 keys_foldl m)
  show "files_of idx1 u = files_of idx2 u" by (simp add: i1 i2 files_of_foldl m)
  have "wf_index idx1" "wf_index idx2"
    unfolding i1 i2 by (rule wf_index_foldl, simp add: wf_index_def)+
  then have "distinct (map fst idx1)" "distinct (map fst idx2)" by (simp_all add: wf_index_def)
  then have "unique_list idx1 = unique_list idx2"
    using k by (simp add: unique_list_def sort_distinct_eq_sorted_list_of_set)
  then show "write_lines (unique_list idx1) = write_lines (unique_list idx2)" by simp
qed

lemma occurrence_table_files_ascending:
  "sorted (map file (filter (\<lambda>r. url r = u) (occurrence_table occ)))" if "distinct (map fst occ)"
  using that
proof (induction occ)
  case Nil
  then show ?case by (simp add: occurrence_table_Nil)
next
  case (Cons p occ)
  obtain v fs where p: "p = (v, fs)" by (cases p)
  have urls: "url ` set (occurrence_table occ) \<subseteq> fst ` set occ"
    by (force simp: occurrence_table_def)
  show ?case
  proof (cases "v = u")
    case True
    with Cons.prems p urls have "filter (\<lambda>r. url r = u) (occurrence_table occ) = []"
      by (auto simp: filter_empty_conv)
    with True p show ?thesis
      by (simp add: occurrence_table_Cons filter_map comp_def)
  next
    case False
    with Cons p show ?thesis
      by (simp add: occurrence_table_Cons filter_map comp_def)
  qed
qed

lemmas run_defs = extract_urls_from_directory_def scan_entry_def write_output_def
  file_write_def utf8_encodable_def occurrence_table_def unique_list_def write_lines_def Let_def

text \<open>
  Claim C1. The records of the occurrence table are to be sorted by URL and, within a
  URL, by file. The files of a URL are ascending (\<open>occurrence_table_files_ascending\<close>),
  but the URLs come in the order in which the scan first met them, where the unique
  list sorts them: for one file in which \<^verbatim>\<open>http://b.com\<close> stands before
  \<^verbatim>\<open>http://a.com\<close>, the program writes the record of \<^verbatim>\<open>http://b.com\<close> first.
\<close>

theorem occurrence_table_keeps_insertion_order:
  "extract_urls_from_directory
     [(str ''a.txt'', Inr (map of_char ''http://b.com http://a.com''))]
     (str ''texts'') (str ''out.json'') False =
   Inr \<lparr>written = json_dump
          [\<lparr>url = str ''http://b.com'', file = str ''texts/a.txt''\<rparr>,
           \<lparr>url = str ''http://a.com'', file = str ''texts/a.txt''\<rparr>],
        printed = [ExtractedOccurrences 2 (str ''out.json'')]\<rparr> \<and>
   \<not> sorted (map url
          [\<lparr>url = str ''http://b.com'', file = str ''texts/a.txt''\<rparr>,
           \<lparr>url = str ''http://a.com'', file = str ''texts/a.txt''\<rparr>])"
  by (simp add: run_defs name_defs read_defs find_defs json_dump_def json_object_def
      json_string_def json_escape_def)

text \<open>
  Claim C6. Two runs on the same files are to write the same output, whatever the order
  in which the files are processed. The contents of the index and the unique list do
  not depend on that order (\<open>index_contents_independent_of_order\<close>), but the
  occurrence table does: the same two files, listed in the two possible orders, give
  two different JSON outputs.
\<close>

theorem occurrence_table_depends_on_listing_order:
  "extract_urls_from_directory
     [(str ''a.txt'', Inr (map of_char ''http://a.com'')),
      (str ''b.txt'', Inr (map of_char ''http://b.com''))]
     (str ''texts'') (str ''out.json'') False =
   Inr \<lparr>written = json_dump
          [\<lparr>url = str ''http://a.com'', file = str ''texts/a.txt''\<rparr>,
           \<lparr>url = str ''http://b.com'', file = str ''texts/b.txt''\<rparr>],
        printed = [ExtractedOccurrences 2 (str ''out.json'')]\<rparr> \<and>
   extract_urls_from_directory
     [(str ''b.txt'', Inr (map of_char ''http://b.com'')),
      (str ''a.txt'', Inr (map of_char ''http://a.com''))]
     (str ''texts'') (str ''out.json'') False =
   Inr \<lparr>written = json_dump
          [\<lparr>url = str ''http://b.com'', file = str ''texts/b.txt''\<rparr>,
           \<lparr>url = str ''http://a.com'', file = str ''texts/a.txt''\<rparr>],
        printed = [ExtractedOccurrences 2 (str ''out.json'')]\<rparr> \<and>
   json_dump
          [\<lparr>url = str ''http://a.com'', file = str ''texts/a.txt''\<rparr>,
           \<lparr>url = str ''http://b.com'', file = str ''texts/b.txt''\<rparr>] \<noteq>
   json_dump
          [\<lparr>url = str ''http://b.com'', file = str ''texts/b.txt''\<rparr>,
           \<lparr>url = str ''http://a.com'', file = str ''texts/a.txt''\<rparr>]"
  by (simp add: run_defs name_defs read_defs find_defs json_dump_def json_object_def
      json_string_def json_escape_def)

subsection \<open>Malformed UTF-8\<close>

lemma utf8_decode_ignore_items: "utf8_decode Ignore bs = Inr (scalars (utf8_items bs))"
proof (induction bs rule: utf8_items.induct)
  case 1
  then show ?case by simp
next
  case (2 b0 bs)
  then show ?case by (cases "utf8_next b0 bs") simp_all
qed

lemma utf8_decode_replace_items: "utf8_decode Replace bs = Inr (replaced (utf8_items bs))"
proof (induction bs rule: utf8_items.induct)
  case 1
  then show ?case by simp
next
  case (2 b0 bs)
  then show ?case by (cases "utf8_next b0 bs") simp_all
qed

text \<open>
  Claim C9, as amended. For every byte string, reading under the handler the program
  passes (\<^verbatim>\<open>errors="ignore"\<close>) does not fail: the decoded content consists of the
  code points of the well-formed sequences, with every malformed sequence dropped and
  nothing put in its place (under \<^verbatim>\<open>errors="replace"\<close> U+FFFD would stand there), and
  a scanned file contributes the matches of that content to the index.
\<close>

theorem malformed_utf8_is_dropped:
  "utf8_decode Ignore bs = Inr (scalars (utf8_items bs)) \<and>
   utf8_decode Replace bs = Inr (replaced (utf8_items bs)) \<and>
   read_file Ignore (Inr bs) = Inr (universal_newlines (scalars (utf8_items bs))) \<and>
   (endswith (lower filename) (str ''.txt'') \<longrightarrow>
      scan_entry regex input_dir (filename, Inr bs) (occ, out) =
        Inr (add_urls occ (findall regex (universal_newlines (scalars (utf8_items bs))))
               (os_path_join input_dir filename), out))"
  by (simp add: utf8_decode_ignore_items utf8_decode_replace_items read_file_def scan_entry_def)

theorem malformed_utf8_is_dropped_witness:
  "endswith (lower (str ''a.txt'')) (str ''.txt'') \<and>
   utf8_items (map of_char ''http://x'' @ [0xFF] @ map of_char ''y.z'') =
     map (\<lambda>c. Scalar c 1) (str ''http://x'') @ [Malformed 1] @ map (\<lambda>c. Scalar c 1) (str ''y.z'') \<and>
   scan_entry URL_REGEX (str ''t'')
     (str ''a.txt'', Inr (map of_char ''http://x'' @ [0xFF] @ map of_char ''y.z'')) ([], []) =
     Inr ([(str ''http://xy.z'', {str ''t/a.txt''})], [])"
  using malformed_utf8_is_dropped[of "map of_char ''http://x'' @ [0xFF] @ map of_char ''y.z''"
      "str ''a.txt''" URL_REGEX "str ''t''" "[]" "[]"]
  by (simp add: name_defs read_defs find_defs)

text \<open>
  Claim C9 as stated says that a malformed sequence is replaced in the decoded content,
  not dropped. For the bytes of \<^verbatim>\<open>http://x\<close>, the byte FF and the bytes of \<^verbatim>\<open>y.z\<close>
  the program reads \<^verbatim>\<open>http://xy.z\<close>, in which nothing stands for the byte FF.
\<close>

theorem malformed_utf8_is_not_replaced:
  "read_file Ignore (Inr (map of_char ''http://x'' @ [0xFF] @ map of_char ''y.z'')) =
     Inr (str ''http://xy.z'') \<and>
   read_file Replace (Inr (map of_char ''http://x'' @ [0xFF] @ map of_char ''y.z'')) =
     Inr (str ''http://x'' @ [0xFFFD] @ str ''y.z'') \<and>
   0xFFFD \<notin> set (str ''http://xy.z'')"
  by (simp add: read_defs)

subsection \<open>What the matcher returns\<close>

lemma rx_match_sound:
  "t \<in> set (rx_match r s) \<Longrightarrow> \<exists>w \<in> lang r. s = w @ t"
proof (induction r arbitrary: s t)
  case Eps
  then show ?case by simp
next
  case (Lit a)
  then show ?case by (cases s) (auto split: if_splits)
next
  case (LitIC a)
  then show ?case by (cases s) (auto split: if_splits)
next
  case (Cls p)
  then show ?case by (cases s) (auto split: if_splits)
next
  case (Seq a b)
  from Seq.prems obtain m where m: "m \<in> set (rx_match a s)" and t: "t \<in> set (rx_match b m)"
    by auto
  from Seq.IH(1)[OF m] obtain x where x: "x \<in> lang a" "s = x @ m" by blast
  from Seq.IH(2)[OF t] obtain y where y: "y \<in> lang b" "m = y @ t" by blast
  from x y have "x @ y \<in> lang (Seq a b)" "s = (x @ y) @ t" by auto
  then show ?case by blast
next
  case (Alt a b)
  from Alt.prems have "t \<in> set (rx_match a s) \<or> t \<in> set (rx_match b s)" by simp
  then show ?case using Alt.IH by fastforce
next
  case (Opt a)
  then show ?case by auto
next
  case (Rep m mx p)
  let ?k = "length (takeWhile p s)"
  let ?hi = "case mx of None \<Rightarrow> ?k | Some n \<Rightarrow> min ?k n"
  from Rep have "t \<in> set (map (\<lambda>n. drop n s) (rev [m..<Suc ?hi]))"
    by (simp add: Let_def)
  then have "t \<in> (\<lambda>n. drop n s) ` set [m..<Suc ?hi]"
    by (simp only: set_map set_rev)
  then obtain n where "n \<in> set [m..<Suc ?hi]" and t: "t = drop n s" by blast
  then have "m \<le> n \<and> n < Suc ?hi" by (simp only: set_upt atLeastLessThan_iff)
  then have n: "m \<le> n" "n \<le> ?hi" by (simp_all only: less_Suc_eq_le)
  have hk: "?hi \<le> ?k" by (simp split: option.splits)
  with n have nk: "n \<le> ?k" by simp
  have "takeWhile p s @ dropWhile p s = s" by simp
  then have "take n s = take n (takeWhile p s @ dropWhile p s)" by simp
  also have "\<dots> = take n (takeWhile p s)"
    using nk by (simp only: take_append diff_is_0_eq' take_0 append_Nil2)
  finally have "set (take n s) \<subseteq> set (takeWhile p s)" by (simp add: set_take_subset)
  then have "list_all p (take n s)"
    by (auto simp: list_all_iff dest: set_takeWhileD)
  moreover have "length (take n s) = n" using nk length_takeWhile_le[of p s] by simp
  moreover have "case mx of None \<Rightarrow> True | Some q \<Rightarrow> n \<le> q"
    using n(2) by (simp split: option.splits)
  ultimately have "take n s \<in> lang (Rep m mx p)" using n(1)
    by (cases mx) simp_all
  moreover have "s = take n s @ t" by (simp add: t)
  ultimately show ?case by blast
qed

lemma match_len_sound:
  "match_len r s = Some n \<Longrightarrow> take n s \<in> lang r \<and> n \<le> length s"
proof -
  assume "match_len r s = Some n"
  then obtain t ts where m: "rx_match r s = t # ts" and n: "n = length s - length t"
    by (auto simp: match_len_def split: list.splits)
  then have "t \<in> set (rx_match r s)" by simp
  from rx_match_sound[OF this] obtain w where "w \<in> lang r" "s = w @ t" by blast
  with n show ?thesis by simp
qed

lemma findall_sound: "u \<in> set (findall r s) \<Longrightarrow> u \<in> lang r"
proof (induction r s rule: findall.induct)
  case (1 r s)
  note eq = findall.simps[of r s]
  show ?case
  proof (cases "match_len r s")
    case None
    with "1.prems" have "s \<noteq> []" and "u \<in> set (findall r (tl s))"
      unfolding eq by (auto split: if_splits)
    with "1.IH"(1)[OF None] show ?thesis by blast
  next
    case (Some n)
    from match_len_sound[OF Some] have w: "take n s \<in> lang r" by simp
    show ?thesis
    proof (cases "n = 0")
      case True
      with w have e: "[] \<in> lang r" by simp
      from "1.prems" Some True have "u = [] \<or> (s \<noteq> [] \<and> u \<in> set (findall r (tl s)))"
        unfolding eq by (auto split: if_splits)
      with e "1.IH"(2)[OF Some True] show ?thesis by blast
    next
      case False
      from "1.prems" Some False have "u = take n s \<or> u \<in> set (findall r (drop n s))"
        unfolding eq by auto
      with w "1.IH"(3)[OF Some False] show ?thesis by blast
    qed
  qed
qed

text \<open>So the branch of \<open>findall\<close> for an empty match is never taken for them.\<close>

lemma patterns_never_match_empty:
  "match_len URL_REGEX s \<noteq> Some 0" "match_len LENIENT_URL_REGEX s \<noteq> Some 0"
proof -
  have a: "[] \<notin> lang URL_REGEX"
    by (auto simp: URL_REGEX_def STRICT_SCHEME_def STRICT_BODY_def)
  have b: "[] \<notin> lang LENIENT_URL_REGEX"
    by (auto simp: LENIENT_URL_REGEX_def LENIENT_DOMAIN_def)
  show "match_len URL_REGEX s \<noteq> Some 0"
    using match_len_sound[of URL_REGEX s 0] a by auto
  show "match_len LENIENT_URL_REGEX s \<noteq> Some 0"
    using match_len_sound[of LENIENT_URL_REGEX s 0] b by auto
qed

subsection \<open>What can be encoded\<close>

text \<open>
  The decoder yields no surrogate: the sequences that would encode one are malformed.
  So the content of a file, the matches in it and the URLs of the index can all be
  written; a surrogate can only come from a path.
\<close>

lemma three_byte:
  fixes a b c :: nat
  assumes "a < 16" "b \<le> 63" "c \<le> 63" "32 \<le> b \<longrightarrow> a \<noteq> 13"
  shows "\<not> (0xD800 \<le> a * 4096 + b * 64 + c \<and> a * 4096 + b * 64 + c \<le> 0xDFFF)"
proof -
  consider "a \<le> 12" | "a = 13" | "14 \<le> a" by arith
  then show ?thesis
  proof cases
    case 1
    then have "a * 4096 \<le> 12 * 4096" by (rule mult_le_mono1)
    moreover from assms(2) have "b * 64 \<le> 63 * 64" by (rule mult_le_mono1)
    ultimately show ?thesis using assms(3) by simp
  next
    case 2
    with assms(4) have "b \<le> 31" by simp
    then have "b * 64 \<le> 31 * 64" by (rule mult_le_mono1)
    with 2 assms(3) show ?thesis by simp
  next
    case 3
    then have "14 * 4096 \<le> a * 4096" by (rule mult_le_mono1)
    then show ?thesis by simp
  qed
qed

lemma utf8_next_no_surrogate:
  assumes "utf8_next b0 bs = Scalar c n"
  shows "\<not> (0xD800 \<le> c \<and> c \<le> 0xDFFF)"
  using assms three_byte[of "unat b0 - 224" "unat (hd bs) - 128" "unat (hd (tl bs)) - 128"]
  unfolding utf8_next_def is_cont_def
  apply (clarsimp split: if_splits list.splits simp: word_less_nat_alt word_le_nat_alt word_unat_eq_iff)
  apply linarith+
  done

lemma scalars_encodable: "utf8_encodable (scalars (utf8_items bs))"
proof (induction bs rule: utf8_items.induct)
  case 1
  show ?case by (simp add: utf8_encodable_def)
next
  case (2 b0 bs)
  show ?case
  proof (cases "utf8_next b0 bs")
    case (Scalar c n)
    with 2 utf8_next_no_surrogate[OF Scalar] show ?thesis by (simp add: utf8_encodable_def)
  next
    case (Malformed n)
    with 2 show ?thesis by simp
  qed
qed

lemma universal_newlines_encodable:
  "utf8_encodable t \<Longrightarrow> utf8_encodable (universal_newlines t)"
  by (induction t rule: universal_newlines.induct) (auto simp: utf8_encodable_def)

lemma read_file_encodable: "read_file Ignore f = Inr t \<Longrightarrow> utf8_encodable t"
  by (cases f)
    (auto simp: read_file_def utf8_decode_ignore_items scalars_encodable
      universal_newlines_encodable)

lemma findall_chars: "u \<in> set (findall r s) \<Longrightarrow> set u \<subseteq> set s"
proof (induction r s rule: findall.induct)
  case (1 r s)
  note eq = findall.simps[of r s]
  show ?case
  proof (cases "match_len r s")
    case None
    with "1.prems" have ne: "s \<noteq> []" and "u \<in> set (findall r (tl s))"
      unfolding eq by (auto split: if_splits)
    with "1.IH"(1)[OF None] have "set u \<subseteq> set (tl s)" by blast
    with ne show ?thesis by (auto dest: list.set_sel(2))
  next
    case (Some n)
    show ?thesis
    proof (cases "n = 0")
      case True
      from "1.prems" Some True have "u = [] \<or> (s \<noteq> [] \<and> u \<in> set (findall r (tl s)))"
        unfolding eq by (auto split: if_splits)
      with "1.IH"(2)[OF Some True] show ?thesis by (auto dest: list.set_sel(2))
    next
      case False
      from "1.prems" Some False have "u = take n s \<or> u \<in> set (findall r (drop n s))"
        unfolding eq by auto
      with "1.IH"(3)[OF Some False] show ?thesis
        by (auto dest: in_set_takeD in_set_dropD)
    qed
  qed
qed

lemma matched_in_encodable: "matched_in regex u entry \<Longrightarrow> utf8_encodable u"
proof (cases entry)
  case (Pair name f)
  assume "matched_in regex u entry"
  with Pair obtain content where c: "read_file Ignore f = Inr content"
    and u: "u \<in> set (findall regex content)"
    by (auto simp: matched_in_def split: sum.splits)
  from read_file_encodable[OF c] findall_chars[OF u] show ?thesis
    by (auto simp: utf8_encodable_def list_all_iff)
qed

lemma scan_urls_encodable:
  assumes "scan_files regex d listing ([], []) = Inr (idx, out)"
  shows "list_all utf8_encodable (map fst idx)"
proof -
  from assms have "idx = foldl add_pair [] (matches_in regex d listing)"
    by (simp add: scan_files_eq)
  then have "\<forall>u \<in> fst ` set idx. \<exists>entry. matched_in regex u entry"
    using scan_keys by blast
  then show ?thesis using matched_in_encodable by (auto simp: list_all_iff)
qed

lemma utf8_encodable_Nil: "utf8_encodable []"
  by (simp add: utf8_encodable_def)

lemma utf8_encodable_Cons:
  "utf8_encodable (x # xs) \<longleftrightarrow> \<not> (0xD800 \<le> x \<and> x \<le> 0xDFFF) \<and> utf8_encodable xs"
  by (simp add: utf8_encodable_def)

lemma utf8_encodable_concat:
  "utf8_encodable (concat xss) \<longleftrightarrow> list_all utf8_encodable xss"
  by (induction xss) (simp_all add: utf8_encodable_def)

lemma utf8_encodable_json_escape:
  "utf8_encodable (json_escape c) \<longleftrightarrow> \<not> (0xD800 \<le> c \<and> c \<le> 0xDFFF)"
  by (auto simp: json_escape_def utf8_encodable_def hex_digit_def)

lemma utf8_encodable_json_string: "utf8_encodable (json_string s) \<longleftrightarrow> utf8_encodable s"
proof -
  have "list_all utf8_encodable (map json_escape s) \<longleftrightarrow> utf8_encodable s"
    by (induction s)
      (simp_all add: utf8_encodable_json_escape utf8_encodable_Nil utf8_encodable_Cons)
  then show ?thesis
    by (simp add: json_string_def utf8_encodable_append utf8_encodable_concat
        utf8_encodable_Nil utf8_encodable_Cons)
qed

lemma utf8_encodable_json_object:
  "utf8_encodable (json_object r) \<longleftrightarrow> utf8_encodable (url r) \<and> utf8_encodable (file r)"
  by (simp add: json_object_def utf8_encodable_append utf8_encodable_json_string
      utf8_encodable_Nil utf8_encodable_Cons)

lemma utf8_encodable_join_objects:
  "utf8_encodable (join_objects xs) \<longleftrightarrow> list_all utf8_encodable xs"
  by (induction xs rule: join_objects.induct)
    (simp_all add: utf8_encodable_append utf8_encodable_Nil utf8_encodable_Cons)

lemma utf8_encodable_json_dump:
  "utf8_encodable (json_dump data) \<longleftrightarrow>
     list_all (\<lambda>r. utf8_encodable (url r) \<and> utf8_encodable (file r)) data"
proof -
  have "list_all utf8_encodable (map json_object data) \<longleftrightarrow>
          list_all (\<lambda>r. utf8_encodable (url r) \<and> utf8_encodable (file r)) data"
    by (induction data) (simp_all add: utf8_encodable_json_object)
  then show ?thesis
    by (simp add: json_dump_def utf8_encodable_append utf8_encodable_join_objects
        utf8_encodable_Nil utf8_encodable_Cons)
qed

lemma unique_list_is_written:
  assumes "\<not> endswith (lower output_file) (str ''.json'')"
  shows "\<exists>idx out.
     scan_files (if use_lenient then LENIENT_URL_REGEX else URL_REGEX) input_dir listing ([], []) =
       Inr (idx, out) \<and>
     extract_urls_from_directory listing input_dir output_file use_lenient =
       Inr \<lparr>written = write_lines (unique_list idx),
            printed = out @ [ExtractedUnique (length idx) output_file]\<rparr>"
proof -
  let ?regex = "if use_lenient then LENIENT_URL_REGEX else URL_REGEX"
  obtain idx out where r: "scan_files ?regex input_dir listing ([], []) = Inr (idx, out)"
    by (simp add: scan_files_eq)
  from scan_urls_encodable[OF r] have "list_all utf8_encodable (unique_list idx)"
    by (simp add: unique_list_def list_all_iff)
  with assms r have "extract_urls_from_directory listing input_dir output_file use_lenient =
       Inr \<lparr>written = write_lines (unique_list idx),
            printed = out @ [ExtractedUnique (length idx) output_file]\<rparr>"
    by (simp add: extract_urls_from_directory_def write_output_def file_write_def
        utf8_encodable_write_lines)
  with r show ?thesis by blast
qed

subsection \<open>The form of a lenient match\<close>

lemma lang_seqs_Cons: "lang (seqs (r # rs)) = {x @ y | x y. x \<in> lang r \<and> y \<in> lang (seqs rs)}"
  by simp

lemma ic_eq_plain: "ic_eq 0x3A c \<longleftrightarrow> c = 0x3A" "ic_eq 0x2F c \<longleftrightarrow> c = 0x2F" "ic_eq 0x2E c \<longleftrightarrow> c = 0x2E"
  by (auto simp: ic_eq_def)

lemma lang_scheme: "x \<in> lang LENIENT_SCHEME \<Longrightarrow> scheme_form x"
  unfolding LENIENT_SCHEME_def scheme_form_def
  by (auto simp: ic_eq_plain)

lemma lang_domain:
  "x \<in> lang LENIENT_DOMAIN \<Longrightarrow>
     \<exists>dom tld. x = dom @ [0x2E] @ tld \<and> dom \<noteq> [] \<and> list_all domain_char dom \<and>
                2 \<le> length tld \<and> length tld \<le> 6 \<and> list_all is_letter tld"
proof -
  assume "x \<in> lang LENIENT_DOMAIN"
  then obtain a b where x: "x = a @ [0x2E] @ b" and a: "list_all domain_char a" "1 \<le> length a"
    and b: "list_all is_letter b" "2 \<le> length b" "length b \<le> 6"
    unfolding LENIENT_DOMAIN_def by auto
  from a(2) have "a \<noteq> []" by auto
  with x a b show ?thesis by blast
qed

lemma lang_path: "x \<in> lang LENIENT_PATH \<Longrightarrow> path_form x"
  unfolding LENIENT_PATH_def path_form_def by auto

lemma lang_lenient: "u \<in> lang LENIENT_URL_REGEX \<Longrightarrow> lenient_form u"
proof -
  assume "u \<in> lang LENIENT_URL_REGEX"
  then obtain s d p where u: "u = s @ d @ p" and s: "s \<in> lang LENIENT_SCHEME"
    and d: "d \<in> lang LENIENT_DOMAIN" and p: "p \<in> lang LENIENT_PATH"
    unfolding LENIENT_URL_REGEX_def by auto
  from lang_domain[OF d] obtain dom tld where
    "d = dom @ [0x2E] @ tld" "dom \<noteq> []" "list_all domain_char dom"
    "2 \<le> length tld" "length tld \<le> 6" "list_all is_letter tld" by blast
  with u lang_scheme[OF s] lang_path[OF p] show ?thesis
    unfolding lenient_form_def by auto
qed


text \<open>
  Claim C8, as amended. Every string returned by \<open>matchLenient\<close> consists of an optional
  scheme (\<^verbatim>\<open>http://\<close>, \<^verbatim>\<open>https://\<close>, \<^verbatim>\<open>www.\<close> or \<^verbatim>\<open>ftp://\<close> in any case), a domain
  of one or more letters, digits, hyphens and dots, a dot, a top-level label of 2 to 6
  letters, and an optional path that starts with a slash and has no white space, quote
  or angle bracket. The dots may stand anywhere in the domain, so its labels may be
  empty.
\<close>

theorem lenient_match_form:
  "u \<in> set (matchLenient text) \<Longrightarrow> lenient_form u"
  unfolding matchLenient_def by (rule lang_lenient) (rule findall_sound)

theorem lenient_match_form_witness:
  "matchLenient (str ''see WWW.a..com/x now'') = [str ''WWW.a..com/x''] \<and>
   lenient_form (str ''WWW.a..com/x'')"
proof -
  have m: "matchLenient (str ''see WWW.a..com/x now'') = [str ''WWW.a..com/x'']"
    by (simp add: find_defs)
  then have "str ''WWW.a..com/x'' \<in> set (matchLenient (str ''see WWW.a..com/x now''))"
    by simp
  from lenient_match_form[OF this] m show ?thesis by simp
qed

text \<open>
  Claim C8 as stated has the domain consist of one or more labels of letters, digits
  and hyphens, each followed by a dot. The lenient pattern matches \<^verbatim>\<open>..com\<close>, which
  has no such label: its first character is a dot.
\<close>

theorem lenient_match_with_empty_labels:
  "matchLenient (str ''..com'') = [str ''..com''] \<and> \<not> spec_lenient_form (str ''..com'')"
proof
  show "matchLenient (str ''..com'') = [str ''..com'']"
    by (simp add: find_defs)
  show "\<not> spec_lenient_form (str ''..com'')"
  proof
    assume "spec_lenient_form (str ''..com'')"
    then obtain scheme labels tld path where
      u: "str ''..com'' = scheme @ concat (map (\<lambda>l. l @ [0x2E]) labels) @ tld @ path"
      and sf: "scheme_form scheme" and ne: "labels \<noteq> []"
      and lb: "\<forall>l \<in> set labels. l \<noteq> [] \<and> list_all label_char l"
      unfolding spec_lenient_form_def by blast
    from ne obtain l ls where labels: "labels = l # ls" by (cases labels) auto
    with lb obtain c l' where l: "l = c # l'" and c: "label_char c" by (cases l) auto
    have "scheme = []"
    proof (rule ccontr)
      assume "scheme \<noteq> []"
      with sf obtain c0 cs where sc: "scheme = c0 # cs"
        and "ic_eq 0x68 c0 \<or> ic_eq 0x77 c0 \<or> ic_eq 0x66 c0"
        by (auto simp: scheme_form_def list_all2_Cons1)
      moreover from u sc have "c0 = 46" by simp
      ultimately show False by (simp add: ic_eq_def)
    qed
    with u labels l have "c = 46" by simp
    with c show False by (simp add: label_char_def is_letter_def is_digit_def)
  qed
qed

subsection \<open>The first match of a greedy repetition\<close>

lemma concat_map_concat:
  "concat (map f (concat (map g xs))) = concat (map (\<lambda>x. concat (map f (g x))) xs)"
  by (induction xs) auto

lemma rx_seq_assoc: "rx_match (Seq (Seq a b) c) s = rx_match (Seq a (Seq b c)) s"
proof -
  have "rx_match (Seq b c) = (\<lambda>x. concat (map (rx_match c) (rx_match b x)))"
    by (rule ext) simp
  then show ?thesis by (simp add: concat_map_concat)
qed

lemma concat_map_skip:
  "(\<And>x. x \<in> set pre \<Longrightarrow> f x = []) \<Longrightarrow> concat (map f (pre @ ys)) = concat (map f ys)"
  by (induction pre) auto

lemma takeWhile_run:
  "list_all p xs \<Longrightarrow> ys = [] \<or> \<not> p (hd ys) \<Longrightarrow> takeWhile p (xs @ ys) = xs"
  by (induction xs) (auto simp: takeWhile_eq_Nil_iff neq_Nil_conv)

lemma seq_rep_first:
  assumes hi: "hi = (case mx of None \<Rightarrow> length (takeWhile p s)
                     | Some q \<Rightarrow> min (length (takeWhile p s)) q)"
    and d: "m \<le> d" "d \<le> hi"
    and fail: "\<And>n. d < n \<Longrightarrow> n \<le> hi \<Longrightarrow> rx_match r (drop n s) = []"
    and ok: "rx_match r (drop d s) = t # ts"
  shows "\<exists>ts'. rx_match (Seq (Rep m mx p) r) s = t # ts'"
proof -
  have "[m..<Suc hi] = [m..<d] @ [d..<Suc hi]"
    using upt_add_eq_append[of m d "Suc hi - d"] d by simp
  moreover have "[d..<Suc hi] = d # [Suc d..<Suc hi]"
    using d by (simp add: upt_conv_Cons)
  ultimately have split: "[m..<Suc hi] = [m..<d] @ d # [Suc d..<Suc hi]" by simp
  have "rx_match (Rep m mx p) s = map (\<lambda>n. drop n s) (rev [m..<Suc hi])"
    by (simp only: rx_match.simps Let_def hi)
  also have "rev [m..<Suc hi] = rev [Suc d..<Suc hi] @ d # rev [m..<d]"
    by (simp only: split rev_append rev.simps append.simps append_assoc)
  finally have cands: "rx_match (Rep m mx p) s =
      map (\<lambda>n. drop n s) (rev [Suc d..<Suc hi]) @ drop d s # map (\<lambda>n. drop n s) (rev [m..<d])"
    by (simp only: map_append list.map)
  have "\<And>x. x \<in> set (map (\<lambda>n. drop n s) (rev [Suc d..<Suc hi])) \<Longrightarrow> rx_match r x = []"
    using fail by auto
  from concat_map_skip[of _ "rx_match r", OF this]
  have "rx_match (Seq (Rep m mx p) r) s =
          concat (map (rx_match r) (drop d s # map (\<lambda>n. drop n s) (rev [m..<d])))"
    by (simp only: rx_match.simps(5) cands)
  with ok show ?thesis by simp
qed

subsection \<open>Character classes and schemes\<close>

lemma letter_url_char: "is_letter c \<Longrightarrow> url_char c"
  by (auto simp: is_letter_def url_char_def is_space_def)

lemma domain_url_char: "domain_char c \<Longrightarrow> url_char c"
  by (auto simp: domain_char_def is_letter_def is_digit_def url_char_def is_space_def)

lemma delimiter_not_domain: "\<not> url_char c \<Longrightarrow> \<not> domain_char c"
  using domain_url_char by blast

lemma delimiter_not_letter: "\<not> url_char c \<Longrightarrow> \<not> is_letter c"
  using letter_url_char by blast

lemma class_facts:
  "\<not> is_letter 0x2E" "\<not> is_letter 0x2F" "\<not> domain_char 0x2F" "url_char 0x2F" "url_char 0x2E"
  "domain_char 0x2E" "\<not> is_space 0x2E" "\<not> is_space 0x2F" "url_char 0x3A"
  by (simp_all add: is_letter_def domain_char_def is_digit_def url_char_def is_space_def)

lemma ic_eq_cases:
  "ic_eq 0x68 c \<longleftrightarrow> c = 0x68 \<or> c = 0x48"
  "ic_eq 0x74 c \<longleftrightarrow> c = 0x74 \<or> c = 0x54"
  "ic_eq 0x70 c \<longleftrightarrow> c = 0x70 \<or> c = 0x50"
  "ic_eq 0x77 c \<longleftrightarrow> c = 0x77 \<or> c = 0x57"
  "ic_eq 0x66 c \<longleftrightarrow> c = 0x66 \<or> c = 0x46"
  "ic_eq 0x73 c \<longleftrightarrow> c = 0x73 \<or> c = 0x53 \<or> c = 0x17F"
  by (auto simp: ic_eq_def)

lemma delimiter_not_scheme_start:
  "\<not> url_char c \<Longrightarrow> \<not> ic_eq 0x68 c \<and> \<not> ic_eq 0x77 c \<and> \<not> ic_eq 0x66 c"
  by (auto simp: ic_eq_cases url_char_def is_space_def)

lemma explicit_scheme_cases:
  assumes "explicit_scheme scheme"
  obtains c1 c2 c3 c4 where "scheme = [c1, c2, c3, c4, 0x3A, 0x2F, 0x2F]"
      "ic_eq 0x68 c1" "ic_eq 0x74 c2" "ic_eq 0x74 c3" "ic_eq 0x70 c4"
  | c1 c2 c3 c4 c5 where "scheme = [c1, c2, c3, c4, c5, 0x3A, 0x2F, 0x2F]"
      "ic_eq 0x68 c1" "ic_eq 0x74 c2" "ic_eq 0x74 c3" "ic_eq 0x70 c4" "ic_eq 0x73 c5"
  | c1 c2 c3 where "scheme = [c1, c2, c3, 0x2E]"
      "ic_eq 0x77 c1" "ic_eq 0x77 c2" "ic_eq 0x77 c3"
  using assms unfolding explicit_scheme_def
  by (auto simp: list_all2_Cons1 ic_eq_plain)

lemma ic_eq_excl:
  "ic_eq 0x68 c \<Longrightarrow> \<not> ic_eq 0x77 c" "ic_eq 0x68 c \<Longrightarrow> \<not> ic_eq 0x66 c"
  "ic_eq 0x77 c \<Longrightarrow> \<not> ic_eq 0x68 c" "ic_eq 0x77 c \<Longrightarrow> \<not> ic_eq 0x66 c"
  "ic_eq 0x73 c \<Longrightarrow> c \<noteq> 0x3A" "\<not> ic_eq 0x73 0x3A"
  by (auto simp: ic_eq_cases)

lemma ic_eq_letter: "ic_eq l c \<Longrightarrow> 97 \<le> l \<Longrightarrow> l \<le> 122 \<Longrightarrow> is_letter c"
  by (auto simp: ic_eq_def is_letter_def)

lemma strict_scheme_match:
  assumes "explicit_scheme scheme"
  shows "rx_match STRICT_SCHEME (scheme @ x) = [x]"
  using assms
proof (cases rule: explicit_scheme_cases)
  case (1 c1 c2 c3 c4)
  then show ?thesis by (simp add: STRICT_SCHEME_def ic_eq_excl)
next
  case (2 c1 c2 c3 c4 c5)
  then show ?thesis by (simp add: STRICT_SCHEME_def ic_eq_excl)
next
  case (3 c1 c2 c3)
  then show ?thesis by (simp add: STRICT_SCHEME_def ic_eq_excl)
qed

lemma lenient_scheme_match:
  assumes "explicit_scheme scheme"
  shows "rx_match LENIENT_SCHEME (scheme @ x) = [x, scheme @ x]"
  using assms
proof (cases rule: explicit_scheme_cases)
  case (1 c1 c2 c3 c4)
  then show ?thesis by (simp add: LENIENT_SCHEME_def ic_eq_excl)
next
  case (2 c1 c2 c3 c4 c5)
  then show ?thesis by (simp add: LENIENT_SCHEME_def ic_eq_excl)
next
  case (3 c1 c2 c3)
  then show ?thesis by (simp add: LENIENT_SCHEME_def ic_eq_excl)
qed

lemma explicit_scheme_url_chars:
  assumes "explicit_scheme scheme"
  shows "list_all url_char scheme"
  using assms
proof (cases rule: explicit_scheme_cases)
  case (1 c1 c2 c3 c4)
  then have "is_letter c1" "is_letter c2" "is_letter c3" "is_letter c4"
    by (auto intro: ic_eq_letter)
  with 1 show ?thesis by (simp add: letter_url_char class_facts)
next
  case (2 c1 c2 c3 c4 c5)
  then have "is_letter c1" "is_letter c2" "is_letter c3" "is_letter c4" "is_letter c5"
    by (auto intro: ic_eq_letter)
  with 2 show ?thesis by (simp add: letter_url_char class_facts)
next
  case (3 c1 c2 c3)
  then have "is_letter c1" "is_letter c2" "is_letter c3"
    by (auto intro: ic_eq_letter)
  with 3 show ?thesis by (simp add: letter_url_char class_facts)
qed

lemma explicit_scheme_nonempty: "explicit_scheme scheme \<Longrightarrow> scheme \<noteq> []"
  by (auto simp: explicit_scheme_def)

subsection \<open>The lenient pattern on a plain URL\<close>

lemma rep_first:
  assumes "hi = (case mx of None \<Rightarrow> length (takeWhile p s)
                 | Some q \<Rightarrow> min (length (takeWhile p s)) q)" and "m \<le> hi"
  shows "\<exists>ts. rx_match (Rep m mx p) s = drop hi s # ts"
proof -
  have "[m..<Suc hi] = [m..<hi] @ [hi]" using assms(2) by simp
  then have "rev [m..<Suc hi] = hi # rev [m..<hi]" by (simp only: rev_append rev.simps append.simps)
  moreover have "rx_match (Rep m mx p) s = map (\<lambda>n. drop n s) (rev [m..<Suc hi])"
    by (simp only: rx_match.simps Let_def assms(1))
  ultimately show ?thesis by (simp only: list.map) blast
qed

lemma seq_cong_right: "rx_match b = rx_match b' \<Longrightarrow> rx_match (Seq a b) = rx_match (Seq a b')"
  by (rule ext) simp

lemma rx_seq_assoc_fun: "rx_match (Seq (Seq a b) c) = rx_match (Seq a (Seq b c))"
  by (rule ext) (rule rx_seq_assoc)

lemma rx_seq_eps_fun: "rx_match (Seq Eps c) = rx_match c"
  by (rule ext) simp

lemma lenient_tail_eq:
  "rx_match (Seq LENIENT_DOMAIN LENIENT_PATH) =
   rx_match (Seq (Rep 1 None domain_char)
              (Seq (Lit 0x2E) (Seq (Rep 2 (Some 6) is_letter) LENIENT_PATH)))"
proof -
  let ?A = "Rep 1 None domain_char" and ?B = "Lit 0x2E" and ?C = "Rep 2 (Some 6) is_letter"
  let ?P = LENIENT_PATH
  have "rx_match (Seq (Seq ?C Eps) ?P) = rx_match (Seq ?C ?P)"
    by (simp only: rx_seq_assoc_fun seq_cong_right[OF rx_seq_eps_fun])
  then have "rx_match (Seq ?B (Seq (Seq ?C Eps) ?P)) = rx_match (Seq ?B (Seq ?C ?P))"
    by (rule seq_cong_right)
  then have "rx_match (Seq (Seq ?B (Seq ?C Eps)) ?P) = rx_match (Seq ?B (Seq ?C ?P))"
    by (simp only: rx_seq_assoc_fun)
  then have "rx_match (Seq ?A (Seq (Seq ?B (Seq ?C Eps)) ?P)) = rx_match (Seq ?A (Seq ?B (Seq ?C ?P)))"
    by (rule seq_cong_right)
  then have "rx_match (Seq (Seq ?A (Seq ?B (Seq ?C Eps))) ?P) = rx_match (Seq ?A (Seq ?B (Seq ?C ?P)))"
    by (simp only: rx_seq_assoc_fun)
  then show ?thesis by (simp only: LENIENT_DOMAIN_def seqs.simps)
qed

lemma path_first:
  assumes "path_form path" and "rest = [] \<or> \<not> url_char (hd rest)"
  shows "\<exists>ts. rx_match LENIENT_PATH (path @ rest) = rest # ts"
proof (cases path)
  case Nil
  from assms(2) have "rx_match (Lit 0x2F) rest = []"
    by (cases rest) (auto simp: class_facts)
  with Nil show ?thesis by (simp add: LENIENT_PATH_def)
next
  case (Cons c p')
  with assms(1) have c: "c = 0x2F" and p': "list_all url_char p'"
    by (auto simp: path_form_def)
  from p' assms(2) have tw: "takeWhile url_char (p' @ rest) = p'" by (rule takeWhile_run)
  from rep_first[where hi="length p'" and mx=None and p=url_char and s="p' @ rest" and m=0]
  obtain ts where "rx_match (Rep 0 None url_char) (p' @ rest) = rest # ts"
    by (auto simp: tw)
  with Cons c show ?thesis by (simp add: LENIENT_PATH_def del: rx_match.simps(8))
qed


lemma path_rest_no_letter:
  assumes "path_form path" and "rest = [] \<or> \<not> url_char (hd rest)"
  shows "path @ rest = [] \<or> \<not> is_letter (hd (path @ rest))"
    and "path @ rest = [] \<or> \<not> domain_char (hd (path @ rest))"
    and "path @ rest = [] \<or> hd (path @ rest) \<noteq> 0x2E"
  using assms
  by (cases path; auto simp: path_form_def class_facts delimiter_not_letter delimiter_not_domain)+

lemma tld_first:
  assumes "2 \<le> length tld" "length tld \<le> 6" "list_all is_letter tld"
    and "path_form path" and "rest = [] \<or> \<not> url_char (hd rest)"
  shows "\<exists>ts. rx_match (Seq (Rep 2 (Some 6) is_letter) LENIENT_PATH) (tld @ path @ rest) = rest # ts"
proof -
  from path_rest_no_letter(1)[OF assms(4,5)] assms(3)
  have tw: "takeWhile is_letter (tld @ path @ rest) = tld" by (simp add: takeWhile_run)
  from path_first[OF assms(4,5)] obtain ts where
    p: "rx_match LENIENT_PATH (path @ rest) = rest # ts" by blast
  show ?thesis
  proof (rule seq_rep_first[where hi="length tld" and d="length tld"])
    show "length tld = (case Some 6 of None \<Rightarrow> length (takeWhile is_letter (tld @ path @ rest))
            | Some q \<Rightarrow> min (length (takeWhile is_letter (tld @ path @ rest))) q)"
      using assms(2) by (simp add: tw)
    show "2 \<le> length tld" by (rule assms(1))
    show "length tld \<le> length tld" by simp
    show "rx_match LENIENT_PATH (drop (length tld) (tld @ path @ rest)) = rest # ts"
      using p by simp
  qed simp
qed

lemma no_dot_no_match:
  "xs = [] \<or> hd xs \<noteq> 0x2E \<Longrightarrow> rx_match (Seq (Lit 0x2E) r) xs = []"
  by (cases xs) auto

lemma domain_first:
  assumes "dn \<noteq> []" "list_all domain_char dn"
    and "2 \<le> length tld" "length tld \<le> 6" "list_all is_letter tld"
    and "path_form path" and "rest = [] \<or> \<not> url_char (hd rest)"
  shows "\<exists>ts. rx_match (Seq LENIENT_DOMAIN LENIENT_PATH) (dn @ [0x2E] @ tld @ path @ rest) = rest # ts"
proof -
  let ?C = "Seq (Rep 2 (Some 6) is_letter) LENIENT_PATH"
  let ?s = "dn @ [0x2E] @ tld @ path @ rest"
  let ?k = "length dn + 1 + length tld"
  have "list_all domain_char (dn @ [0x2E] @ tld)"
    using assms(2,5) by (auto simp: list_all_iff class_facts domain_char_def)
  with path_rest_no_letter(2)[OF assms(6,7)]
  have "takeWhile domain_char ((dn @ [0x2E] @ tld) @ (path @ rest)) = dn @ [0x2E] @ tld"
    by (rule takeWhile_run[rotated])
  then have tw: "length (takeWhile domain_char ?s) = ?k" by simp
  from tld_first[OF assms(3-7)] obtain ts where
    t: "rx_match ?C (tld @ path @ rest) = rest # ts" by blast
  have "\<exists>ts'. rx_match (Seq (Rep 1 None domain_char) (Seq (Lit 0x2E) ?C)) ?s = rest # ts'"
  proof (rule seq_rep_first[where hi="?k" and d="length dn"])
    show "?k = (case None of None \<Rightarrow> length (takeWhile domain_char ?s)
            | Some q \<Rightarrow> min (length (takeWhile domain_char ?s)) q)"
      by (simp only: tw option.case)
    show "1 \<le> length dn" using assms(1) by (cases dn) auto
    show "length dn \<le> ?k" by simp
    show "rx_match (Seq (Lit 0x2E) ?C) (drop (length dn) ?s) = rest # ts"
      using t by simp
  next
    fix n assume n: "length dn < n" "n \<le> ?k"
    define j where "j = n - length dn - 1"
    from n have j: "j \<le> length tld" and nj: "n = length dn + 1 + j" by (auto simp: j_def)
    have dr: "drop n ?s = drop j tld @ path @ rest" using j by (simp add: nj)
    have "drop j tld @ path @ rest = [] \<or> hd (drop j tld @ path @ rest) \<noteq> 0x2E"
    proof (cases "drop j tld")
      case Nil
      with path_rest_no_letter(3)[OF assms(6,7)] show ?thesis by simp
    next
      case (Cons c cs)
      then have "c \<in> set tld" by (metis in_set_dropD list.set_intros(1))
      with assms(5) have "is_letter c" by (simp add: list_all_iff)
      then have "c \<noteq> 0x2E" using class_facts(1) by auto
      with Cons show ?thesis by simp
    qed
    then show "rx_match (Seq (Lit 0x2E) ?C) (drop n ?s) = []"
      unfolding dr by (rule no_dot_no_match)
  qed
  then show ?thesis by (simp only: lenient_tail_eq)
qed

lemma match_len_first:
  "rx_match r (tok @ rest) = rest # ts \<Longrightarrow> match_len r (tok @ rest) = Some (length tok)"
  by (simp add: match_len_def)

lemma findall_token:
  "match_len r (tok @ rest) = Some (length tok) \<Longrightarrow> tok \<noteq> [] \<Longrightarrow>
     findall r (tok @ rest) = tok # findall r rest"
  by (subst findall.simps) simp

lemma findall_skip:
  "match_len r (c # s) = None \<Longrightarrow> findall r (c # s) = findall r s"
  by (subst findall.simps) simp

lemma plain_url_parts:
  assumes "plain_url tok"
  obtains scheme body where "tok = scheme @ body" "explicit_scheme scheme"
    "body \<noteq> []" "list_all url_char body"
    "\<And>rest. rest = [] \<or> \<not> url_char (hd rest) \<Longrightarrow>
       \<exists>ts. rx_match (Seq LENIENT_DOMAIN LENIENT_PATH) (body @ rest) = rest # ts"
proof -
  from assms obtain scheme dn tld path where
    tok: "tok = scheme @ dn @ [0x2E] @ tld @ path" and sch: "explicit_scheme scheme"
    and dn: "dn \<noteq> []" "list_all domain_char dn"
    and tld: "2 \<le> length tld" "length tld \<le> 6" "list_all is_letter tld"
    and path: "path_form path"
    unfolding plain_url_def by blast
  let ?body = "dn @ [0x2E] @ tld @ path"
  have "list_all url_char path"
    using path by (auto simp: path_form_def class_facts)
  with dn(2) tld(3) have uc: "list_all url_char ?body"
    by (auto simp: list_all_iff class_facts domain_url_char letter_url_char)
  have "\<exists>ts. rx_match (Seq LENIENT_DOMAIN LENIENT_PATH) (?body @ rest) = rest # ts"
    if "rest = [] \<or> \<not> url_char (hd rest)" for rest
    using domain_first[OF dn tld path that] by simp
  with tok sch dn(1) uc show ?thesis by (intro that[of scheme ?body]) auto
qed

lemma lenient_on_plain_url:
  assumes "plain_url tok" and "rest = [] \<or> \<not> url_char (hd rest)"
  shows "match_len LENIENT_URL_REGEX (tok @ rest) = Some (length tok)"
proof -
  obtain scheme body where tok: "tok = scheme @ body"
    and sch: "explicit_scheme scheme"
    and m: "\<And>rest. rest = [] \<or> \<not> url_char (hd rest) \<Longrightarrow>
       \<exists>ts. rx_match (Seq LENIENT_DOMAIN LENIENT_PATH) (body @ rest) = rest # ts"
    using plain_url_parts[OF assms(1)] by blast
  from m[OF assms(2)] obtain ts where
    b: "rx_match (Seq LENIENT_DOMAIN LENIENT_PATH) (body @ rest) = rest # ts" by blast
  have "rx_match LENIENT_URL_REGEX (tok @ rest) =
          concat (map (rx_match (Seq LENIENT_DOMAIN LENIENT_PATH))
                   (rx_match LENIENT_SCHEME (scheme @ (body @ rest))))"
    by (simp add: LENIENT_URL_REGEX_def tok)
  also have "\<dots> = rest # ts @ rx_match (Seq LENIENT_DOMAIN LENIENT_PATH) (scheme @ body @ rest)"
    by (simp only: lenient_scheme_match[OF sch] list.map concat.simps b append.simps append_Nil2)
  finally show ?thesis by (rule match_len_first)
qed

lemma strict_on_plain_url:
  assumes "plain_url tok" and "rest = [] \<or> \<not> url_char (hd rest)"
  shows "match_len URL_REGEX (tok @ rest) = Some (length tok)"
proof -
  obtain scheme body where tok: "tok = scheme @ body"
    and sch: "explicit_scheme scheme" and ne: "body \<noteq> []" and uc: "list_all url_char body"
    using plain_url_parts[OF assms(1)] by blast
  from uc assms(2) have tw: "takeWhile url_char (body @ rest) = body" by (rule takeWhile_run)
  from ne have "1 \<le> length body" by (cases body) auto
  with rep_first[where hi="length body" and mx=None and p=url_char and s="body @ rest" and m=1]
  obtain ts where r: "rx_match (Rep 1 None url_char) (body @ rest) = rest # ts"
    by (auto simp: tw)
  have "rx_match URL_REGEX (tok @ rest) =
          concat (map (rx_match (Rep 1 None url_char)) (rx_match STRICT_SCHEME (scheme @ (body @ rest))))"
    by (simp add: URL_REGEX_def STRICT_BODY_def tok del: rx_match.simps(8))
  also have "\<dots> = rest # ts"
    by (simp only: strict_scheme_match[OF sch] list.map concat.simps r append_Nil2)
  finally show ?thesis by (rule match_len_first)
qed

lemma plain_url_nonempty: "plain_url tok \<Longrightarrow> tok \<noteq> []"
  by (auto simp: plain_url_def)

lemma strict_at_delimiter: "\<not> url_char c \<Longrightarrow> match_len URL_REGEX (c # s) = None"
  by (simp add: match_len_def URL_REGEX_def STRICT_SCHEME_def delimiter_not_scheme_start
      del: rx_match.simps(8))

lemma lenient_at_delimiter: "\<not> url_char c \<Longrightarrow> match_len LENIENT_URL_REGEX (c # s) = None"
  by (simp add: match_len_def LENIENT_URL_REGEX_def LENIENT_SCHEME_def LENIENT_DOMAIN_def
      delimiter_not_scheme_start delimiter_not_domain)

subsection \<open>Tokens that are not URL-like\<close>

lemma run_prefix:
  assumes "tok @ rest = p @ q" and "list_all url_char tok" and "list_all url_char p"
    and "rest = [] \<or> \<not> url_char (hd rest)"
  shows "\<exists>q'. tok = p @ q'"
proof -
  from assms(2,4) have "takeWhile url_char (tok @ rest) = tok" by (rule takeWhile_run)
  moreover from assms(3) have "takeWhile url_char (p @ q) = p @ takeWhile url_char q"
    by (simp add: takeWhile_append2 list_all_iff)
  ultimately have "tok = p @ takeWhile url_char q" using assms(1) by simp
  then show ?thesis ..
qed

lemma url_like_suffix: "starts_prefixed suf \<or> starts_dotted suf \<Longrightarrow> url_like (pre @ suf)"
proof (induction pre)
  case Nil
  then show ?case by (cases suf) (auto simp: starts_prefixed_def)
next
  case (Cons a pre)
  then show ?case by simp
qed

lemma ic_eq_url_chars:
  "list_all2 ic_eq ls cs \<Longrightarrow>
   list_all (\<lambda>l. 97 \<le> l \<and> l \<le> 122 \<or> l = 0x3A \<or> l = 0x2F \<or> l = 0x2E) ls \<Longrightarrow>
   list_all url_char cs"
proof (induction rule: list_all2_induct)
  case Nil
  then show ?case by simp
next
  case (Cons l ls c cs)
  from Cons.prems have "97 \<le> l \<and> l \<le> 122 \<or> l = 0x3A \<or> l = 0x2F \<or> l = 0x2E" by simp
  with Cons.hyps(1) have "url_char c"
    by (auto simp: ic_eq_plain class_facts intro: letter_url_char ic_eq_letter)
  with Cons show ?case by simp
qed

lemma scheme_form_url_chars: "scheme_form scheme \<Longrightarrow> list_all url_char scheme"
  unfolding scheme_form_def
  by (elim disjE) (simp, (drule ic_eq_url_chars, simp, assumption)+)

lemma lang_strict_scheme: "x \<in> lang STRICT_SCHEME \<Longrightarrow> explicit_scheme x"
  unfolding STRICT_SCHEME_def explicit_scheme_def
  by (auto simp: ic_eq_plain)

lemma starts_prefixed_scheme:
  assumes "explicit_scheme scheme"
  shows "starts_prefixed (scheme @ c # q)"
  using assms
proof (cases rule: explicit_scheme_cases)
  case (1 c1 c2 c3 c4)
  with assms show ?thesis by (simp add: starts_prefixed_def)
next
  case (2 c1 c2 c3 c4 c5)
  with assms show ?thesis by (simp add: starts_prefixed_def)
next
  case (3 c1 c2 c3)
  with assms show ?thesis by (simp add: starts_prefixed_def)
qed

lemma strict_match_url_like:
  assumes "match_len URL_REGEX (tok @ rest) = Some n" and "list_all url_char tok"
    and "rest = [] \<or> \<not> url_char (hd rest)"
  shows "url_like tok"
proof -
  from match_len_sound[OF assms(1)] have "take n (tok @ rest) \<in> lang URL_REGEX" by simp
  then obtain scheme body where tk: "take n (tok @ rest) = scheme @ body"
    and sch: "scheme \<in> lang STRICT_SCHEME" and body: "list_all url_char body" "1 \<le> length body"
    unfolding URL_REGEX_def STRICT_BODY_def by auto
  from sch have es: "explicit_scheme scheme" by (rule lang_strict_scheme)
  from body obtain c body' where b: "body = c # body'" and c: "url_char c" by (cases body) auto
  have "tok @ rest = take n (tok @ rest) @ drop n (tok @ rest)"
    by (rule append_take_drop_id[symmetric])
  also have "\<dots> = (scheme @ [c]) @ (body' @ drop n (tok @ rest))"
    by (simp only: tk b append_assoc append.simps)
  finally have "tok @ rest = (scheme @ [c]) @ (body' @ drop n (tok @ rest))" .
  moreover from es c have "list_all url_char (scheme @ [c])"
    by (simp add: explicit_scheme_url_chars)
  ultimately obtain q where "tok = (scheme @ [c]) @ q"
    using run_prefix[OF _ assms(2) _ assms(3)] by blast
  then have "tok = [] @ (scheme @ c # q)" by simp
  moreover from es have "starts_prefixed (scheme @ c # q)" by (rule starts_prefixed_scheme)
  ultimately show ?thesis using url_like_suffix[of "scheme @ c # q" "[]"] by simp
qed

lemma lenient_match_url_like:
  assumes "match_len LENIENT_URL_REGEX (tok @ rest) = Some n" and "list_all url_char tok"
    and "rest = [] \<or> \<not> url_char (hd rest)"
  shows "url_like tok"
proof -
  from match_len_sound[OF assms(1)] have "take n (tok @ rest) \<in> lang LENIENT_URL_REGEX" by simp
  then have "lenient_form (take n (tok @ rest))" by (rule lang_lenient)
  then obtain scheme dn tld path where
    tk: "take n (tok @ rest) = scheme @ dn @ [0x2E] @ tld @ path" and sf: "scheme_form scheme"
    and dn: "dn \<noteq> []" "list_all domain_char dn"
    and tld: "2 \<le> length tld" "list_all is_letter tld"
    unfolding lenient_form_def by blast
  from dn obtain dn' d where d: "dn = dn' @ [d]" "domain_char d" "list_all domain_char dn'"
    by (cases dn rule: rev_cases) auto
  from tld obtain a b tld' where t: "tld = a # b # tld'" "is_letter a" "is_letter b"
    by (cases tld; cases "tl tld") auto
  let ?p = "scheme @ dn'" and ?m = "[d, 0x2E, a, b]"
  have "tok @ rest = take n (tok @ rest) @ drop n (tok @ rest)"
    by (rule append_take_drop_id[symmetric])
  also have "\<dots> = (?p @ ?m) @ (tld' @ path @ drop n (tok @ rest))"
    by (simp only: tk d(1) t(1) append_assoc append.simps)
  finally have "tok @ rest = (?p @ ?m) @ (tld' @ path @ drop n (tok @ rest))" .
  moreover have "list_all url_char (?p @ ?m)"
    using scheme_form_url_chars[OF sf] d(2,3) t(2,3)
    by (auto simp: list_all_iff class_facts domain_url_char letter_url_char)
  ultimately obtain q where "tok = (?p @ ?m) @ q"
    using run_prefix[OF _ assms(2) _ assms(3)] by blast
  then have "tok = ?p @ (?m @ q)" by simp
  moreover from d(2) t(2,3) have "starts_dotted (?m @ q)" by simp
  ultimately show ?thesis using url_like_suffix[of "?m @ q" ?p] by simp
qed

lemma findall_skip_token:
  assumes ml: "\<And>tok rest n. match_len r (tok @ rest) = Some n \<Longrightarrow> list_all url_char tok \<Longrightarrow>
                 rest = [] \<or> \<not> url_char (hd rest) \<Longrightarrow> url_like tok"
  shows "list_all url_char tok \<Longrightarrow> \<not> url_like tok \<Longrightarrow> rest = [] \<or> \<not> url_char (hd rest) \<Longrightarrow>
           findall r (tok @ rest) = findall r rest"
proof (induction tok)
  case Nil
  then show ?case by simp
next
  case (Cons c t)
  from Cons.prems(2) have nt: "\<not> url_like t" by simp
  from Cons.prems(1) have ut: "list_all url_char t" by simp
  have "match_len r ((c # t) @ rest) = None"
  proof (cases "match_len r ((c # t) @ rest)")
    case None
    then show ?thesis .
  next
    case (Some n)
    from ml[OF Some Cons.prems(1,3)] Cons.prems(2) show ?thesis by blast
  qed
  then have "match_len r (c # (t @ rest)) = None" by simp
  then have "findall r (c # (t @ rest)) = findall r (t @ rest)" by (rule findall_skip)
  with Cons.IH[OF ut nt Cons.prems(3)] show ?case by simp
qed

subsection \<open>Strict and lenient matches\<close>

lemma token_split:
  assumes "url_char c"
  shows "c # s = takeWhile url_char (c # s) @ dropWhile url_char s"
    and "dropWhile url_char s = [] \<or> \<not> url_char (hd (dropWhile url_char s))"
    and "takeWhile url_char (c # s) \<noteq> []"
    and "list_all url_char (takeWhile url_char (c # s))"
proof -
  show "c # s = takeWhile url_char (c # s) @ dropWhile url_char s"
    using assms by simp
  show "dropWhile url_char s = [] \<or> \<not> url_char (hd (dropWhile url_char s))"
    using hd_dropWhile[of url_char s] by auto
  show "takeWhile url_char (c # s) \<noteq> []" using assms by simp
  show "list_all url_char (takeWhile url_char (c # s))"
    by (auto simp: list_all_iff dest: set_takeWhileD)
qed

lemma findall_tokens:
  assumes nil: "match_len r [] = None"
    and dl: "\<And>c s. \<not> url_char c \<Longrightarrow> match_len r (c # s) = None"
    and tk: "\<And>tok rest. plain_url tok \<Longrightarrow> rest = [] \<or> \<not> url_char (hd rest) \<Longrightarrow>
               match_len r (tok @ rest) = Some (length tok)"
    and nl: "\<And>tok rest. list_all url_char tok \<Longrightarrow> \<not> url_like tok \<Longrightarrow>
               rest = [] \<or> \<not> url_char (hd rest) \<Longrightarrow> findall r (tok @ rest) = findall r rest"
  shows "list_all (\<lambda>tok. url_like tok \<longrightarrow> plain_url tok) (tokens text) \<Longrightarrow>
           findall r text = filter url_like (tokens text)"
proof (induction "text" rule: tokens.induct)
  case 1
  show ?case using nil by (subst findall.simps) simp
next
  case (2 c s)
  show ?case
  proof (cases "url_char c")
    case False
    with 2 show ?thesis by (simp add: findall_skip[OF dl])
  next
    case True
    let ?tok = "takeWhile url_char (c # s)"
    let ?rest = "dropWhile url_char s"
    from "2.prems" True have p: "url_like ?tok \<longrightarrow> plain_url ?tok"
      and ps: "list_all (\<lambda>tok. url_like tok \<longrightarrow> plain_url tok) (tokens ?rest)"
      by simp_all
    from "2.IH"(1)[OF True ps] have IH: "findall r ?rest = filter url_like (tokens ?rest)" .
    from token_split[OF True, of s] have sp': "c # s = ?tok @ ?rest"
      and r: "?rest = [] \<or> \<not> url_char (hd ?rest)" and ne: "?tok \<noteq> []"
      and uc: "list_all url_char ?tok" by blast+
    have tks: "tokens (c # s) = ?tok # tokens ?rest"
      using True by (simp only: tokens.simps if_True)
    show ?thesis
    proof (cases "url_like ?tok")
      case True
      with p have "plain_url ?tok" by blast
      from findall_token[OF tk[OF this r] ne]
      have "findall r (?tok @ ?rest) = ?tok # findall r ?rest" .
      then have "findall r (c # s) = ?tok # findall r ?rest" by (simp only: sp'[symmetric])
      then have "findall r (c # s) = ?tok # filter url_like (tokens ?rest)" by (simp only: IH)
      moreover have "filter url_like (tokens (c # s)) = ?tok # filter url_like (tokens ?rest)"
        using True by (simp only: tks filter.simps if_True)
      ultimately show ?thesis by (simp only:)
    next
      case False
      from nl[OF uc False r] have "findall r (?tok @ ?rest) = findall r ?rest" .
      then have "findall r (c # s) = findall r ?rest" by (simp only: sp'[symmetric])
      then have "findall r (c # s) = filter url_like (tokens ?rest)" by (simp only: IH)
      moreover have "filter url_like (tokens (c # s)) = filter url_like (tokens ?rest)"
        using False by (simp only: tks filter.simps if_False)
      ultimately show ?thesis by (simp only:)
    qed
  qed
qed

lemma match_len_nil:
  "match_len URL_REGEX [] = None" "match_len LENIENT_URL_REGEX [] = None"
  by (simp_all add: match_len_def rx_defs)

subsection \<open>The URL-like tokens are those in which a pattern matches\<close>

lemma rx_match_complete: "w \<in> lang r \<Longrightarrow> t \<in> set (rx_match r (w @ t))"
proof (induction r arbitrary: w t)
  case (Seq a b)
  from Seq.prems obtain x y where w: "w = x @ y" and x: "x \<in> lang a" and y: "y \<in> lang b"
    by auto
  from Seq.IH(1)[OF x, of "y @ t"] Seq.IH(2)[OF y, of t] w show ?case by auto
next
  case (Rep m mx p)
  then have p: "list_all p w" and m: "m \<le> length w"
    and mx: "case mx of None \<Rightarrow> True | Some n \<Rightarrow> length w \<le> n" by simp_all
  from p have "takeWhile p (w @ t) = w @ takeWhile p t"
    by (simp add: takeWhile_append2 list_all_iff)
  then have k: "length w \<le> length (takeWhile p (w @ t))" by simp
  let ?hi = "case mx of None \<Rightarrow> length (takeWhile p (w @ t))
             | Some n \<Rightarrow> min (length (takeWhile p (w @ t))) n"
  from k mx have "length w \<le> ?hi" by (cases mx) simp_all
  with m have "m \<le> length w \<and> length w < Suc ?hi" by (simp only: less_Suc_eq_le simp_thms)
  then have "length w \<in> set (rev [m..<Suc ?hi])"
    by (simp only: set_rev set_upt atLeastLessThan_iff)
  then have "drop (length w) (w @ t) \<in> set (map (\<lambda>n. drop n (w @ t)) (rev [m..<Suc ?hi]))"
    unfolding set_map by (rule imageI)
  then show ?case by (simp add: Let_def)
qed auto

lemma match_len_complete: "w \<in> lang r \<Longrightarrow> match_len r (w @ t) \<noteq> None"
  using rx_match_complete[of w r t] by (auto simp: match_len_def split: list.splits)

lemma findall_nonempty:
  "match_len r (drop i s) \<noteq> None \<Longrightarrow> findall r s \<noteq> []"
proof (induction r s arbitrary: i rule: findall.induct)
  case (1 r s)
  note eq = findall.simps[of r s]
  show ?case
  proof (cases "match_len r s")
    case (Some n)
    then show ?thesis unfolding eq by simp
  next
    case None
    with "1.prems" have "i \<noteq> 0" by (cases i) auto
    then obtain j where i: "i = Suc j" by (cases i) auto
    from None "1.prems" have ne: "s \<noteq> []" by auto
    with i "1.prems" have "match_len r (drop j (tl s)) \<noteq> None" by (cases s) auto
    from "1.IH"(1)[OF None ne this] None ne show ?thesis unfolding eq by simp
  qed
qed

lemma url_like_parts:
  "url_like tok \<Longrightarrow> \<exists>i. starts_prefixed (drop i tok) \<or> starts_dotted (drop i tok)"
proof (induction tok)
  case Nil
  then show ?case by simp
next
  case (Cons c s)
  then consider "starts_prefixed (c # s) \<or> starts_dotted (c # s)" | "url_like s" by auto
  then show ?case
  proof cases
    case 1
    then have "starts_prefixed (drop 0 (c # s)) \<or> starts_dotted (drop 0 (c # s))" by simp
    then show ?thesis ..
  next
    case 2
    with Cons.IH obtain i where "starts_prefixed (drop i s) \<or> starts_dotted (drop i s)" by blast
    then have "starts_prefixed (drop (Suc i) (c # s)) \<or> starts_dotted (drop (Suc i) (c # s))"
      by simp
    then show ?thesis ..
  qed
qed

lemma starts_prefixed_parts:
  assumes "starts_prefixed s"
  obtains scheme c q where "s = scheme @ c # q" "explicit_scheme scheme"
proof -
  from assms obtain k where k: "explicit_scheme (take k s)" "k < length s"
    unfolding starts_prefixed_def by blast
  then obtain c q where "drop k s = c # q" by (cases "drop k s") auto
  then have "s = take k s @ c # q" by (metis append_take_drop_id)
  with k(1) show ?thesis by (rule that[rotated])
qed

lemma strict_at_prefixed:
  assumes "starts_prefixed s" and "list_all url_char s"
  shows "match_len URL_REGEX s \<noteq> None"
proof -
  from assms(1) obtain scheme c q where s: "s = scheme @ c # q" and es: "explicit_scheme scheme"
    by (rule starts_prefixed_parts)
  from assms(2) s have c: "url_char c" by simp
  then have "1 \<le> length (takeWhile url_char (c # q))" by simp
  with rep_first[where hi="length (takeWhile url_char (c # q))" and mx=None and p=url_char
      and s="c # q" and m=1]
  obtain ts where "rx_match (Rep 1 None url_char) (c # q) =
      drop (length (takeWhile url_char (c # q))) (c # q) # ts"
    by auto
  then have "rx_match URL_REGEX s \<noteq> []"
    by (simp add: URL_REGEX_def STRICT_BODY_def s strict_scheme_match[OF es]
        del: rx_match.simps(8))
  then show ?thesis by (simp add: match_len_def split: list.splits)
qed

lemma lang_SeqI: "x \<in> lang a \<Longrightarrow> y \<in> lang b \<Longrightarrow> x @ y \<in> lang (Seq a b)"
  by auto

lemma dotted_in_lang:
  assumes "domain_char d" "is_letter a" "is_letter b"
  shows "[d, 0x2E, a, b] \<in> lang LENIENT_URL_REGEX"
proof -
  have s: "[] \<in> lang LENIENT_SCHEME" by (simp add: LENIENT_SCHEME_def)
  have d1: "[d] \<in> lang (Rep 1 None domain_char)" using assms by simp
  have d2: "[0x2E] \<in> lang (Lit 0x2E)" by simp
  have d3: "[a, b] \<in> lang (Rep 2 (Some 6) is_letter)" using assms by simp
  have d4: "[] \<in> lang Eps" by simp
  have "[d] @ [0x2E] @ [a, b] @ [] \<in> lang LENIENT_DOMAIN"
    unfolding LENIENT_DOMAIN_def seqs.simps
    by (intro lang_SeqI d1 d2 d3 d4)
  moreover have "[] \<in> lang LENIENT_PATH" by (simp add: LENIENT_PATH_def)
  ultimately have "[] @ (([d] @ [0x2E] @ [a, b] @ []) @ []) \<in> lang LENIENT_URL_REGEX"
    unfolding LENIENT_URL_REGEX_def by (intro lang_SeqI s)
  then show ?thesis by simp
qed

lemma lenient_at_dotted:
  assumes "starts_dotted s"
  shows "match_len LENIENT_URL_REGEX s \<noteq> None"
proof -
  from assms obtain d a b q where s: "s = [d, 0x2E, a, b] @ q"
    and "domain_char d" "is_letter a" "is_letter b"
    by (cases s rule: starts_dotted.cases) auto
  with match_len_complete[OF dotted_in_lang, of d a b q] show ?thesis by simp
qed

lemma url_like_iff_match:
  assumes "list_all url_char tok"
  shows "url_like tok \<longleftrightarrow> matchStrict tok \<noteq> [] \<or> matchLenient tok \<noteq> []"
proof
  assume "url_like tok"
  then obtain i where "starts_prefixed (drop i tok) \<or> starts_dotted (drop i tok)"
    using url_like_parts by blast
  then show "matchStrict tok \<noteq> [] \<or> matchLenient tok \<noteq> []"
  proof
    assume sp: "starts_prefixed (drop i tok)"
    from assms have "list_all url_char (drop i tok)"
      by (auto simp: list_all_iff dest: in_set_dropD)
    from findall_nonempty[OF strict_at_prefixed[OF sp this]] show ?thesis
      by (simp add: matchStrict_def)
  next
    assume "starts_dotted (drop i tok)"
    from findall_nonempty[OF lenient_at_dotted[OF this]] show ?thesis
      by (simp add: matchLenient_def)
  qed
next
  assume m: "matchStrict tok \<noteq> [] \<or> matchLenient tok \<noteq> []"
  show "url_like tok"
  proof (rule ccontr)
    assume n: "\<not> url_like tok"
    have e: "findall r [] = []" if "match_len r [] = None" for r
      using that by (subst findall.simps) simp
    from findall_skip_token[where r=URL_REGEX and tok=tok and rest="[]",
        OF strict_match_url_like assms n]
    have "matchStrict tok = []" by (simp add: matchStrict_def e match_len_nil)
    moreover from findall_skip_token[where r=LENIENT_URL_REGEX and tok=tok and rest="[]",
        OF lenient_match_url_like assms n]
    have "matchLenient tok = []" by (simp add: matchLenient_def e match_len_nil)
    ultimately show False using m by simp
  qed
qed

text \<open>
  Claim C2, as amended. Take the tokens of a text: its maximal runs of characters other
  than white space, quotes and angle brackets. A token is URL-like if it holds an
  explicit prefix followed by a character, or a letter, digit, hyphen or dot followed
  by a dot and two letters; these are the tokens in which one of the patterns matches
  (\<open>url_like_iff_match\<close>). If every token that is URL-like is an explicit prefix
  \<^verbatim>\<open>http://\<close>, \<^verbatim>\<open>https://\<close> or \<^verbatim>\<open>www.\<close> followed by a domain of letters, digits,
  hyphens and dots, a dot, a top-level label of 2 to 6 letters and then nothing or a
  path that starts with a slash, then the strict and the lenient pattern return the
  same matches: the URL-like tokens of the text, in order. The tokens that are not
  URL-like may be anything.
\<close>

theorem patterns_agree_on_plain_urls:
  assumes "list_all (\<lambda>tok. url_like tok \<longrightarrow> plain_url tok) (tokens text)"
  shows "matchStrict text = matchLenient text \<and>
         matchLenient text = filter url_like (tokens text)"
proof -
  have s: "matchStrict text = filter url_like (tokens text)"
    unfolding matchStrict_def
    using match_len_nil(1) strict_at_delimiter strict_on_plain_url
      findall_skip_token[of URL_REGEX, OF strict_match_url_like] assms
    by (rule findall_tokens)
  have l: "matchLenient text = filter url_like (tokens text)"
    unfolding matchLenient_def
    using match_len_nil(2) lenient_at_delimiter lenient_on_plain_url
      findall_skip_token[of LENIENT_URL_REGEX, OF lenient_match_url_like] assms
    by (rule findall_tokens)
  from s l show ?thesis by simp
qed

theorem patterns_agree_on_plain_urls_witness:
  "list_all (\<lambda>tok. url_like tok \<longrightarrow> plain_url tok)
     (tokens (str ''see <http://a.com/x> or WWW.b.org e.g. now'')) \<and>
   tokens (str ''see <http://a.com/x> or WWW.b.org e.g. now'') =
     [str ''see'', str ''http://a.com/x'', str ''or'', str ''WWW.b.org'', str ''e.g.'', str ''now''] \<and>
   matchStrict (str ''see <http://a.com/x> or WWW.b.org e.g. now'') =
     [str ''http://a.com/x'', str ''WWW.b.org''] \<and>
   matchLenient (str ''see <http://a.com/x> or WWW.b.org e.g. now'') =
     [str ''http://a.com/x'', str ''WWW.b.org'']"
proof -
  let ?text = "str ''see <http://a.com/x> or WWW.b.org e.g. now''"
  have t: "tokens ?text =
      [str ''see'', str ''http://a.com/x'', str ''or'', str ''WWW.b.org'', str ''e.g.'', str ''now'']"
    by (simp add: url_char_def is_space_def)
  have p1: "plain_url (str ''http://a.com/x'')"
    unfolding plain_url_def
    apply (rule exI[of _ "str ''http://''"])
    apply (rule exI[of _ "str ''a''"])
    apply (rule exI[of _ "str ''com''"])
    apply (rule exI[of _ "str ''/x''"])
    apply (simp add: explicit_scheme_def ic_eq_def path_form_def domain_char_def is_letter_def
        url_char_def is_space_def)
    done
  have p2: "plain_url (str ''WWW.b.org'')"
    unfolding plain_url_def
    apply (rule exI[of _ "str ''WWW.''"])
    apply (rule exI[of _ "str ''b''"])
    apply (rule exI[of _ "str ''org''"])
    apply (rule exI[of _ "[]"])
    apply (simp add: explicit_scheme_def ic_eq_def path_form_def domain_char_def is_letter_def)
    done
  have u: "url_like (str ''http://a.com/x'')" "url_like (str ''WWW.b.org'')"
    "\<not> url_like (str ''see'')" "\<not> url_like (str ''or'')" "\<not> url_like (str ''e.g.'')"
    "\<not> url_like (str ''now'')"
    by (simp_all add: starts_prefixed_def explicit_scheme_def ic_eq_def domain_char_def
        is_letter_def is_digit_def)
  have h: "list_all (\<lambda>tok. url_like tok \<longrightarrow> plain_url tok) (tokens ?text)"
    by (simp only: t list.pred_inject u p1 p2 simp_thms)
  have f: "filter url_like (tokens ?text) = [str ''http://a.com/x'', str ''WWW.b.org'']"
    by (simp only: t filter.simps u if_True if_False)
  from patterns_agree_on_plain_urls[OF h]
  have ms: "matchStrict ?text = matchLenient ?text"
    and ml: "matchLenient ?text = filter url_like (tokens ?text)" by (rule conjunct1, rule conjunct2)
  from ml f have ml': "matchLenient ?text = [str ''http://a.com/x'', str ''WWW.b.org'']"
    by (simp only:)
  with ms have ms': "matchStrict ?text = [str ''http://a.com/x'', str ''WWW.b.org'']"
    by (simp only:)
  from h t ms' ml' show ?thesis by (intro conjI)
qed

text \<open>
  Claim C2 as stated asks only that every URL-like token carries an explicit prefix.
  The text \<^verbatim>\<open>http://example.com:8080/x\<close> is one such token; the strict pattern
  returns all of it, the lenient pattern stops before the port.
\<close>

theorem patterns_differ_on_prefixed_url:
  "list_all explicit_prefix (tokens (str ''http://example.com:8080/x'')) \<and>
   matchStrict (str ''http://example.com:8080/x'') = [str ''http://example.com:8080/x''] \<and>
   matchLenient (str ''http://example.com:8080/x'') = [str ''http://example.com''] \<and>
   set (matchStrict (str ''http://example.com:8080/x'')) \<noteq>
   set (matchLenient (str ''http://example.com:8080/x''))"
proof -
  have a: "list_all explicit_prefix (tokens (str ''http://example.com:8080/x''))"
    by (simp add: url_char_def is_space_def explicit_prefix_def explicit_scheme_def ic_eq_def)
  have b: "matchStrict (str ''http://example.com:8080/x'') = [str ''http://example.com:8080/x'']"
    by (simp add: find_defs)
  have c: "matchLenient (str ''http://example.com:8080/x'') = [str ''http://example.com'']"
    by (simp add: find_defs)
  from a b c show ?thesis by simp
qed

end
